theory Spec2Isabelle
  imports Main "HOL-Library.Word"
begin

section \<open>The Raft server orchestrator (raft/server.cc)\<close>

text \<open>
  A shallow embedding of \<^verbatim>\<open>raft::server_impl\<close>.  The server runs on one cooperative
  execution context, so every member function is a function on the server's state between
  two suspension points.  Promises are named by an identifier; resolving one
  (\<^verbatim>\<open>set_value\<close>, \<^verbatim>\<open>set_exception\<close>) and calling a collaborator (state machine, protocol
  FSM, persistence) appends an entry to the \<open>effects\<close> field of the state, in program
  order.  What a collaborator answers is an argument of the function that calls it.
  A failed \<^verbatim>\<open>assert\<close> and an access outside a vector end the process: they are the
  \<open>Inl\<close> results of type \<open>fault\<close>.  A C++ exception is a value of type \<open>exn\<close>.
\<close>

subsection \<open>Data model\<close>

text \<open>
  Modelled from the spec: \<^verbatim>\<open>index_t\<close>, \<^verbatim>\<open>term_t\<close>, \<^verbatim>\<open>server_id\<close> and the
  fields of \<^verbatim>\<open>server::configuration\<close> are declared in headers outside this file; the
  spec gives terms and indexes as non-negative integers, and the nil server id is 0 here.
\<close>

type_synonym index_t = nat
type_synonym term_t = nat
type_synonym server_id = nat
type_synonym snapshot_id = nat
type_synonym read_id = nat
type_synonym promise_id = nat
type_synonym command = nat

datatype exn =
    dropped_entry
  | commit_status_unknown
  | stopped_error
  | config_error string
  | logic_error string
  | timeout_error string
  | runtime_error string
  | not_a_leader_error server_id
  | stop_apply_fiber
  | broken_condition_variable
  | other_exception string

datatype fault = assertion_failed string | undefined_behaviour string

datatype outcome = set_value | set_exception exn

datatype entry_data =
    command_data command
  | configuration_data "server_id list"
  | dummy

record log_entry =
  entry_term :: term_t
  idx :: index_t
  data :: entry_data

record snapshot_descriptor =
  snp_idx :: index_t
  snp_term :: term_t
  snp_config :: "server_id list"
  snp_id :: snapshot_id

record op_status =
  op_term :: term_t
  op_done :: promise_id

datatype wait_type = wait_committed | wait_applied

datatype read_barrier_reply = not_ready | not_a_leader server_id | read_index index_t

datatype apply_item = entries_item "log_entry list" | snapshot_item snapshot_descriptor

text \<open>
  The messages \<^verbatim>\<open>send_message\<close> tells apart.  Of the payload of a message the model
  keeps what this file reads: the snapshot descriptor of an \<^verbatim>\<open>install_snapshot\<close>, and
  the two fields \<^verbatim>\<open>current_term\<close> and \<^verbatim>\<open>success\<close> of a \<^verbatim>\<open>snapshot_reply\<close>.
\<close>

datatype message =
    append_reply
  | append_request
  | vote_request
  | vote_reply
  | timeout_now
  | read_quorum
  | read_quorum_reply
  | install_snapshot snapshot_descriptor
  | snapshot_reply term_t bool

datatype effect =
    resolve promise_id outcome
  | resolve_read promise_id read_barrier_reply
  | resolve_snapshot_reply promise_id term_t bool
  | sm_apply "command list"
  | sm_take_snapshot
  | sm_load_snapshot snapshot_id
  | sm_drop_snapshot snapshot_id
  | sm_abort
  | fsm_apply_snapshot snapshot_descriptor nat bool
  | fsm_transfer_leadership nat
  | fsm_add_entry entry_data
  | fsm_start_read_barrier server_id
  | fsm_step server_id message
  | fsm_create
  | fsm_stop
  | load_term_and_vote
  | load_snapshot_descriptor
  | load_log
  | store_term_and_vote term_t server_id
  | store_snapshot_descriptor snapshot_descriptor nat
  | truncate_log index_t
  | store_log_entries "log_entry list"
  | persistence_abort
  | push_eventually apply_item
  | queue_abort
  | rpc_add_server server_id
  | rpc_remove_server server_id
  | rpc_send server_id message
  | chain_append_entries server_id
  | schedule_send_snapshot server_id snapshot_descriptor "64 word"
  | request_abort "64 word"
  | rpc_read_barrier server_id
  | rpc_abort
  | spawn_io_fiber index_t
  | spawn_applier_fiber
  | register_metrics
  | log_error exn
  | log_debug exn

datatype future = ready_future | exception_future exn | pending_future promise_id

record active_read =
  active_id :: read_id
  active_idx :: index_t
  active_promise :: promise_id

record server_configuration =
  append_request_threshold :: nat
  max_log_size :: nat
  snapshot_threshold :: nat
  snapshot_trailing :: nat
  enable_prevoting :: bool

text \<open>
  The counters of \<^verbatim>\<open>_stats\<close>; a counter whose name an effect has gets the suffix
  \<open>_count\<close>.
\<close>

record stats =
  add_command :: "64 word"
  add_dummy :: "64 word"
  add_config :: "64 word"
  append_entries_received :: "64 word"
  append_entries_reply_received :: "64 word"
  request_vote_received :: "64 word"
  request_vote_reply_received :: "64 word"
  waiters_awaken :: "64 word"
  waiters_dropped :: "64 word"
  append_entries_reply_sent :: "64 word"
  append_entries_sent :: "64 word"
  vote_request_sent :: "64 word"
  vote_request_reply_sent :: "64 word"
  install_snapshot_sent :: "64 word"
  snapshot_reply_sent :: "64 word"
  polls :: "64 word"
  store_term_and_vote_count :: "64 word"
  store_snapshot_count :: "64 word"
  sm_load_snapshot_count :: "64 word"
  truncate_persisted_log :: "64 word"
  persisted_log_entries :: "64 word"
  queue_entries_for_apply :: "64 word"
  applied_entries :: "64 word"
  snapshots_taken :: "64 word"
  timeout_now_sent :: "64 word"
  timeout_now_received :: "64 word"
  read_quorum_sent :: "64 word"
  read_quorum_received :: "64 word"
  read_quorum_reply_sent :: "64 word"
  read_quorum_reply_received :: "64 word"

text \<open>
  \<^verbatim>\<open>std::map<index_t, op_status>\<close> is the list of its pairs in iteration order, that is,
  by strictly increasing key (\<open>map_inv\<close>); \<^verbatim>\<open>begin()\<close> is the head of the list.
  \<^verbatim>\<open>std::multimap<index_t, promise<>>\<close> is the same with equal keys allowed
  (\<open>multimap_inv\<close>).  A \<^verbatim>\<open>std::unordered_map\<close> or an address set is the list of its
  elements in the order a loop of the code visits them, without a key twice.  A
  snapshot transfer (its future and its abort source) is named by its \<^verbatim>\<open>id\<close>, and
  the queue of append requests of a destination by its \<^verbatim>\<open>count\<close>.
\<close>

type_synonym waiters = "(index_t \<times> op_status) list"

record server_impl =
  config :: server_configuration
  applied_idx :: index_t
  self_id :: server_id
  stepdown_promise :: "promise_id option"
  leader_promise :: "promise_id option"
  reads :: "active_read list"
  current_rpc_config :: "server_id list"
  awaited_indexes :: "(index_t \<times> promise_id) list"
  awaited_commits :: waiters
  awaited_applies :: waiters
  snapshot_application_done :: "(server_id \<times> promise_id) list"
  snapshot_transfers :: "(server_id \<times> 64 word) list"
  aborted_snapshot_transfers :: "64 word list"
  next_snapshot_transfer_id :: "64 word"
  append_request_status :: "(server_id \<times> 64 word) list"
  server_stats :: stats
  next_promise :: promise_id
  effects :: "effect list"

definition map_inv :: "(index_t \<times> 'a) list \<Rightarrow> bool" where
  "map_inv ws = sorted_wrt (<) (map fst ws)"

definition multimap_inv :: "(index_t \<times> 'a) list \<Rightarrow> bool" where
  "multimap_inv ws = sorted (map fst ws)"

definition zero_stats :: stats where
  "zero_stats = \<lparr>add_command = 0, add_dummy = 0, add_config = 0,
     append_entries_received = 0, append_entries_reply_received = 0,
     request_vote_received = 0, request_vote_reply_received = 0, waiters_awaken = 0,
     waiters_dropped = 0, append_entries_reply_sent = 0, append_entries_sent = 0,
     vote_request_sent = 0, vote_request_reply_sent = 0, install_snapshot_sent = 0,
     snapshot_reply_sent = 0, polls = 0, store_term_and_vote_count = 0,
     store_snapshot_count = 0, sm_load_snapshot_count = 0, truncate_persisted_log = 0,
     persisted_log_entries = 0, queue_entries_for_apply = 0, applied_entries = 0,
     snapshots_taken = 0, timeout_now_sent = 0, timeout_now_received = 0,
     read_quorum_sent = 0, read_quorum_received = 0, read_quorum_reply_sent = 0,
     read_quorum_reply_received = 0\<rparr>"

subsection \<open>Construction\<close>

text \<open>
  \<^verbatim>\<open>server_impl::server_impl\<close>: the members take their default values and the
  configuration is checked; the constructor throws \<^verbatim>\<open>config_error\<close> when
  \<^verbatim>\<open>snapshot_threshold > max_log_size\<close>.
\<close>

definition server_impl_ctor :: "server_id \<Rightarrow> server_configuration \<Rightarrow> exn + server_impl" where
  "server_impl_ctor uuid cfg =
     (if snapshot_threshold cfg > max_log_size cfg
      then Inl (config_error ''snapshot_threshold has to be smaller than max_log_size'')
      else Inr \<lparr>config = cfg, applied_idx = 0, self_id = uuid, stepdown_promise = None,
                leader_promise = None, reads = [], current_rpc_config = [],
                awaited_indexes = [], awaited_commits = [], awaited_applies = [],
                snapshot_application_done = [], snapshot_transfers = [],
                aborted_snapshot_transfers = [], next_snapshot_transfer_id = 0,
                append_request_status = [],
                server_stats = zero_stats, next_promise = 0, effects = []\<rparr>)"

subsection \<open>Effects and counters\<close>

definition emit :: "effect list \<Rightarrow> server_impl \<Rightarrow> server_impl" where
  "emit evs s = s\<lparr>effects := effects s @ evs\<rparr>"

definition new_effects :: "server_impl \<Rightarrow> server_impl \<Rightarrow> effect list" where
  "new_effects s s' = drop (length (effects s)) (effects s')"

definition count_waiters_awaken :: "nat \<Rightarrow> server_impl \<Rightarrow> server_impl" where
  "count_waiters_awaken n s =
     s\<lparr>server_stats := (server_stats s)\<lparr>waiters_awaken := waiters_awaken (server_stats s) + of_nat n\<rparr>\<rparr>"

definition count_waiters_dropped :: "nat \<Rightarrow> server_impl \<Rightarrow> server_impl" where
  "count_waiters_dropped n s =
     s\<lparr>server_stats := (server_stats s)\<lparr>waiters_dropped := waiters_dropped (server_stats s) + of_nat n\<rparr>\<rparr>"

definition count_applied_entries :: "nat \<Rightarrow> server_impl \<Rightarrow> server_impl" where
  "count_applied_entries n s =
     s\<lparr>server_stats := (server_stats s)\<lparr>applied_entries := applied_entries (server_stats s) + of_nat n\<rparr>\<rparr>"

definition count_snapshots_taken :: "server_impl \<Rightarrow> server_impl" where
  "count_snapshots_taken s =
     s\<lparr>server_stats := (server_stats s)\<lparr>snapshots_taken := snapshots_taken (server_stats s) + 1\<rparr>\<rparr>"

definition count_sm_load_snapshot :: "server_impl \<Rightarrow> server_impl" where
  "count_sm_load_snapshot s =
     s\<lparr>server_stats := (server_stats s)\<lparr>sm_load_snapshot_count := sm_load_snapshot_count (server_stats s) + 1\<rparr>\<rparr>"

definition count_add_config :: "server_impl \<Rightarrow> server_impl" where
  "count_add_config s =
     s\<lparr>server_stats := (server_stats s)\<lparr>add_config := add_config (server_stats s) + 1\<rparr>\<rparr>"

definition count_add_command :: "server_impl \<Rightarrow> server_impl" where
  "count_add_command s =
     s\<lparr>server_stats := (server_stats s)\<lparr>add_command := add_command (server_stats s) + 1\<rparr>\<rparr>"

definition counted :: "(stats \<Rightarrow> stats) \<Rightarrow> server_impl \<Rightarrow> server_impl" where
  "counted f s = s\<lparr>server_stats := f (server_stats s)\<rparr>"

text \<open>The promise a \<^verbatim>\<open>promise<>()\<close> expression creates gets the next unused identifier.\<close>

definition fresh_promise :: "server_impl \<Rightarrow> promise_id \<times> server_impl" where
  "fresh_promise s = (next_promise s, s\<lparr>next_promise := Suc (next_promise s)\<rparr>)"

text \<open>
  What stops a function before its end: a C++ exception, with the state as it is when
  the exception is thrown, or a fault.  \<open>call\<close> is the call of a collaborator that
  throws or not, as its environment says.
\<close>

datatype stop = thrown exn server_impl | crashed fault

definition call :: "effect \<Rightarrow> exn option \<Rightarrow> server_impl \<Rightarrow> stop + server_impl" where
  "call ef throws s = (case throws of Some e \<Rightarrow> Inl (thrown e (emit [ef] s)) | None \<Rightarrow> Inr (emit [ef] s))"

definition and_then :: "('e + 'a) \<Rightarrow> ('a \<Rightarrow> 'e + 'b) \<Rightarrow> 'e + 'b" where
  "and_then m f = (case m of Inl e \<Rightarrow> Inl e | Inr x \<Rightarrow> f x)"

text \<open>The operations of a \<^verbatim>\<open>std::unordered_map\<close> the code uses.\<close>

definition contains_key :: "'k \<Rightarrow> ('k \<times> 'v) list \<Rightarrow> bool" where
  "contains_key k m = (k \<in> set (map fst m))"

definition erase_key :: "'k \<Rightarrow> ('k \<times> 'v) list \<Rightarrow> ('k \<times> 'v) list" where
  "erase_key k m = filter (\<lambda>kv. fst kv \<noteq> k) m"

definition put_key :: "'k \<Rightarrow> 'v \<Rightarrow> ('k \<times> 'v) list \<Rightarrow> ('k \<times> 'v) list" where
  "put_key k v m =
     (if contains_key k m then map (\<lambda>kv. if fst kv = k then (k, v) else kv) m else m @ [(k, v)])"

subsection \<open>Waiter registry\<close>

text \<open>
  The container \<^verbatim>\<open>notify_waiters\<close> and the lambda of \<^verbatim>\<open>drop_waiters\<close> get by reference
  is one of the two members \<^verbatim>\<open>_awaited_commits\<close> and \<^verbatim>\<open>_awaited_applies\<close>; the
  \<open>wait_type\<close> names which.
\<close>

definition container :: "wait_type \<Rightarrow> server_impl \<Rightarrow> waiters" where
  "container w s = (case w of wait_committed \<Rightarrow> awaited_commits s | wait_applied \<Rightarrow> awaited_applies s)"

definition set_container :: "wait_type \<Rightarrow> waiters \<Rightarrow> server_impl \<Rightarrow> server_impl" where
  "set_container w ws s =
     (case w of wait_committed \<Rightarrow> s\<lparr>awaited_commits := ws\<rparr> | wait_applied \<Rightarrow> s\<lparr>awaited_applies := ws\<rparr>)"

text \<open>
  The first loop of \<^verbatim>\<open>notify_waiters\<close> (lines 383-404): it takes the waiter of the
  smallest key while that key is at most \<^verbatim>\<open>commit_idx\<close>, asserts that the key is not
  below \<^verbatim>\<open>first_idx\<close>, and resolves the promise by comparing terms with
  \<^verbatim>\<open>entries[entry_idx - first_idx]\<close>.
\<close>

fun notify_committed :: "log_entry list \<Rightarrow> waiters \<Rightarrow> fault + (waiters \<times> effect list)" where
  "notify_committed entries [] = Inr ([], [])"
| "notify_committed entries ((entry_idx, status) # ws) =
     (if entry_idx > idx (last entries) then Inr ((entry_idx, status) # ws, [])
      else if \<not> entry_idx \<ge> idx (hd entries)
        then Inl (assertion_failed ''entry_idx >= first_idx'')
      else if \<not> entry_idx - idx (hd entries) < length entries
        then Inl (undefined_behaviour ''entries[entry_idx - first_idx]'')
      else (case notify_committed entries ws of
              Inl f \<Rightarrow> Inl f
            | Inr (ws', evs) \<Rightarrow>
                Inr (ws',
                  resolve (op_done status)
                    (if op_term status = entry_term (entries ! (entry_idx - idx (hd entries)))
                     then set_value else set_exception dropped_entry) # evs)))"

text \<open>
  The second loop (lines 408-418): it fails the waiter of the smallest key while that
  waiter's term is below the term of the last committed entry, and stops at the first
  waiter whose term is not.
\<close>

fun drop_smaller_term :: "term_t \<Rightarrow> waiters \<Rightarrow> waiters \<times> effect list" where
  "drop_smaller_term last_committed_term [] = ([], [])"
| "drop_smaller_term last_committed_term ((k, status) # ws) =
     (if op_term status < last_committed_term
      then (case drop_smaller_term last_committed_term ws of
              (ws', evs) \<Rightarrow> (ws', resolve (op_done status) (set_exception dropped_entry) # evs))
      else ((k, status) # ws, []))"

definition notify_waiters :: "wait_type \<Rightarrow> log_entry list \<Rightarrow> server_impl \<Rightarrow> fault + server_impl" where
  "notify_waiters w entries s =
     (if entries = [] then Inl (undefined_behaviour ''entries.back()'')
      else (case notify_committed entries (container w s) of
              Inl f \<Rightarrow> Inl f
            | Inr (ws1, evs1) \<Rightarrow>
                (case drop_smaller_term (entry_term (last entries)) ws1 of
                   (ws2, evs2) \<Rightarrow>
                     Inr (count_waiters_awaken (length evs1 + length evs2)
                           (emit (evs1 @ evs2) (set_container w ws2 s))))))"

text \<open>
  \<^verbatim>\<open>drop_waiters\<close> (lines 421-436): the loop of the lambda \<^verbatim>\<open>drop\<close>, the lambda applied
  to one container, then its two calls.
\<close>

fun drop_loop :: "index_t option \<Rightarrow> waiters \<Rightarrow> waiters \<times> effect list" where
  "drop_loop i [] = ([], [])"
| "drop_loop i ((entry_idx, status) # ws) =
     (if (case i of Some up_to \<Rightarrow> entry_idx > up_to | None \<Rightarrow> False)
      then ((entry_idx, status) # ws, [])
      else (case drop_loop i ws of
              (ws', evs) \<Rightarrow>
                (ws', resolve (op_done status) (set_exception commit_status_unknown) # evs)))"

definition drop_in :: "wait_type \<Rightarrow> index_t option \<Rightarrow> server_impl \<Rightarrow> server_impl" where
  "drop_in w i s =
     (case drop_loop i (container w s) of
        (ws', evs) \<Rightarrow> count_waiters_dropped (length evs) (emit evs (set_container w ws' s)))"

definition drop_waiters :: "index_t option \<Rightarrow> server_impl \<Rightarrow> server_impl" where
  "drop_waiters i s = drop_in wait_applied i (drop_in wait_committed i s)"

text \<open>\<^verbatim>\<open>signal_applied\<close> (lines 438-448).\<close>

fun signal_loop :: "index_t \<Rightarrow> (index_t \<times> promise_id) list \<Rightarrow> (index_t \<times> promise_id) list \<times> effect list" where
  "signal_loop a [] = ([], [])"
| "signal_loop a ((k, p) # xs) =
     (if k > a then ((k, p) # xs, [])
      else (case signal_loop a xs of (xs', evs) \<Rightarrow> (xs', resolve p set_value # evs)))"

definition signal_applied :: "server_impl \<Rightarrow> server_impl" where
  "signal_applied s =
     (case signal_loop (applied_idx s) (awaited_indexes s) of
        (xs', evs) \<Rightarrow> emit evs (s\<lparr>awaited_indexes := xs'\<rparr>))"

text \<open>
  \<^verbatim>\<open>std::map::emplace\<close> keeps an element that already has the key and says so;
  \<^verbatim>\<open>std::multimap::emplace\<close> puts the new element after the elements of the same key.
\<close>

fun map_emplace :: "index_t \<Rightarrow> 'a \<Rightarrow> (index_t \<times> 'a) list \<Rightarrow> (index_t \<times> 'a) list \<times> bool" where
  "map_emplace k v [] = ([(k, v)], True)"
| "map_emplace k v ((k', v') # xs) =
     (if k < k' then ((k, v) # (k', v') # xs, True)
      else if k = k' then ((k', v') # xs, False)
      else (case map_emplace k v xs of (xs', inserted) \<Rightarrow> ((k', v') # xs', inserted)))"

fun multimap_emplace :: "index_t \<Rightarrow> 'a \<Rightarrow> (index_t \<times> 'a) list \<Rightarrow> (index_t \<times> 'a) list" where
  "multimap_emplace k v [] = [(k, v)]"
| "multimap_emplace k v ((k', v') # xs) =
     (if k < k' then (k, v) # (k', v') # xs else (k', v') # multimap_emplace k v xs)"

subsection \<open>The address set of the RPC module\<close>

text \<open>
  \<^verbatim>\<open>add_to_rpc_config\<close> and \<^verbatim>\<open>remove_from_rpc_config\<close> (lines 1066-1072); an address
  is its server id.  \<^verbatim>\<open>diff_address_sets\<close> (lines 507-520): the joining and the leaving
  addresses.
\<close>

definition add_to_rpc_config :: "server_id \<Rightarrow> server_impl \<Rightarrow> server_impl" where
  "add_to_rpc_config srv s = s\<lparr>current_rpc_config := List.insert srv (current_rpc_config s)\<rparr>"

definition remove_from_rpc_config :: "server_id \<Rightarrow> server_impl \<Rightarrow> server_impl" where
  "remove_from_rpc_config srv s = s\<lparr>current_rpc_config := removeAll srv (current_rpc_config s)\<rparr>"

definition diff_address_sets :: "server_id list \<Rightarrow> server_id list \<Rightarrow> server_id list \<times> server_id list" where
  "diff_address_sets prev current =
     (filter (\<lambda>a. a \<notin> set prev) current, filter (\<lambda>a. a \<notin> set current) prev)"

text \<open>
  The loop over the addresses that join (lines 296-299 and 580-583): each one is put
  into the address set and announced to the RPC module.
\<close>

fun add_joining :: "exn option \<Rightarrow> server_id list \<Rightarrow> server_impl \<Rightarrow> stop + server_impl" where
  "add_joining throws [] s = Inr s"
| "add_joining throws (addr # joining) s =
     and_then (call (rpc_add_server addr) throws (add_to_rpc_config addr s)) (add_joining throws joining)"

subsection \<open>Start\<close>

text \<open>
  \<^verbatim>\<open>start\<close> (lines 269-310).  What persistence loads, and what the log built from it
  says, is the \<open>start_env\<close>: the snapshot descriptor, the configuration of the log (its
  current and its previous address set), the stable index, and which of the calls
  throws.  A snapshot id converts to true when it is not the null id, which is 0 here.
  \<^verbatim>\<open>merge\<close> moves into \<^verbatim>\<open>current\<close> the addresses of \<^verbatim>\<open>previous\<close> that are not in it.
  The creation of the FSM, the start of the two fibers and the registration of the
  metrics are effects; what the fibers do is \<open>io_fiber\<close> and \<open>applier_fiber\<close> below.
\<close>

record start_env =
  load_term_and_vote_throws :: "exn option"
  load_snapshot_descriptor_throws :: "exn option"
  loaded_snapshot :: snapshot_descriptor
  load_log_throws :: "exn option"
  log_configuration :: "server_id list \<times> server_id list"
  log_stable_idx :: index_t
  start_load_snapshot_throws :: "exn option"
  start_add_server_throws :: "exn option"

definition start :: "start_env \<Rightarrow> server_impl \<Rightarrow> stop + server_impl" where
  "start env s =
     and_then (call load_term_and_vote (load_term_and_vote_throws env) s)
       (\<lambda>s1. and_then (call load_snapshot_descriptor (load_snapshot_descriptor_throws env) s1)
          (\<lambda>s2. and_then (call load_log (load_log_throws env) s2)
             (\<lambda>s3. and_then
                (let snapshot = loaded_snapshot env;
                     s4 = (emit [fsm_create] s3)\<lparr>applied_idx := 0\<rparr>
                 in if snp_id snapshot \<noteq> 0
                    then and_then (call (sm_load_snapshot (snp_id snapshot)) (start_load_snapshot_throws env) s4)
                           (\<lambda>s5. Inr (s5\<lparr>applied_idx := snp_idx snapshot\<rparr>))
                    else Inr s4)
                (\<lambda>s6. and_then
                   (case log_configuration env of
                      (current, previous) \<Rightarrow>
                        if current \<noteq> []
                        then add_joining (start_add_server_throws env)
                               (current @ filter (\<lambda>a. a \<notin> set current) previous) s6
                        else Inr s6)
                   (\<lambda>s7. Inr (emit [spawn_io_fiber (log_stable_idx env), spawn_applier_fiber,
                                      register_metrics] s7))))))"

subsection \<open>The applier fiber\<close>

text \<open>
  One iteration of the loop of \<^verbatim>\<open>applier_fiber\<close> (lines 700-771) is a function of the
  item popped from \<^verbatim>\<open>_apply_entries\<close> and of what the collaborators answer during the
  iteration (\<open>applier_env\<close>).  Its result is a fault, or the state together with the
  exception that left the loop body, if one did.  What other fibers do while the
  iteration is suspended in a \<^verbatim>\<open>co_await\<close> is not part of the iteration.
\<close>

record applier_env =
  apply_throws :: "exn option"
  log_last_snapshot_idx :: index_t
  log_last_conf_for :: "server_id list"
  take_snapshot_result :: "exn + snapshot_id"
  fsm_apply_snapshot_accepts :: bool
  load_snapshot_throws :: "exn option"

fun commands_of :: "log_entry list \<Rightarrow> command list" where
  "commands_of [] = []"
| "commands_of (e # es) =
     (case data e of command_data c \<Rightarrow> c # commands_of es | _ \<Rightarrow> commands_of es)"

text \<open>Lines 742-759: the snapshot the applier takes by itself.\<close>

definition take_local_snapshot :: "applier_env \<Rightarrow> term_t \<Rightarrow> server_impl \<Rightarrow> exn option \<times> server_impl" where
  "take_local_snapshot env last_term s =
     (let last_snap_idx = log_last_snapshot_idx env in
      if applied_idx s \<ge> last_snap_idx \<and> applied_idx s - last_snap_idx \<ge> snapshot_threshold (config s)
      then (let s1 = emit [sm_take_snapshot] s in
            case take_snapshot_result env of
              Inl e \<Rightarrow> (Some e, s1)
            | Inr new_id \<Rightarrow>
                (let snp = \<lparr>snp_idx = applied_idx s, snp_term = last_term,
                             snp_config = log_last_conf_for env, snp_id = new_id\<rparr>;
                     s2 = emit [fsm_apply_snapshot snp (snapshot_trailing (config s)) True] s1;
                     s3 = (if \<not> fsm_apply_snapshot_accepts env
                           then emit [sm_drop_snapshot new_id] s2 else s2)
                 in (None, count_snapshots_taken s3)))
      else (None, s))"

text \<open>Lines 704-759: a non-empty batch of committed entries.\<close>

definition apply_batch :: "applier_env \<Rightarrow> log_entry list \<Rightarrow> server_impl \<Rightarrow> fault + (exn option \<times> server_impl)" where
  "apply_batch env batch s =
     (case notify_waiters wait_committed batch s of
        Inl f \<Rightarrow> Inl f
      | Inr s1 \<Rightarrow>
          (let commands = commands_of batch;
               last_idx = idx (last batch);
               last_term = entry_term (last batch)
           in if \<not> last_idx = applied_idx s1 + length batch
              then Inl (assertion_failed ''last_idx == _applied_idx + batch.size()'')
              else if length commands \<noteq> 0 \<and> apply_throws env \<noteq> None
              then Inr (apply_throws env, emit [sm_apply commands] s1)
              else (let s2 = (if length commands \<noteq> 0
                              then count_applied_entries (length commands) (emit [sm_apply commands] s1)
                              else s1);
                        s3 = s2\<lparr>applied_idx := last_idx\<rparr>
                    in case notify_waiters wait_applied batch s3 of
                         Inl f \<Rightarrow> Inl f
                       | Inr s4 \<Rightarrow> Inr (take_local_snapshot env last_term s4))))"

text \<open>Lines 760-769: a snapshot descriptor.\<close>

definition apply_snapshot_item :: "applier_env \<Rightarrow> snapshot_descriptor \<Rightarrow> server_impl \<Rightarrow> fault + (exn option \<times> server_impl)" where
  "apply_snapshot_item env snp s =
     (if \<not> snp_idx snp \<ge> applied_idx s then Inl (assertion_failed ''snp.idx >= _applied_idx'')
      else (let s1 = emit [sm_load_snapshot (snp_id snp)] s in
            case load_snapshot_throws env of
              Some e \<Rightarrow> Inr (Some e, s1)
            | None \<Rightarrow>
                Inr (None, count_sm_load_snapshot ((drop_waiters (Some (snp_idx snp)) s1)\<lparr>applied_idx := snp_idx snp\<rparr>))))"

definition applier_iteration :: "applier_env \<Rightarrow> apply_item \<Rightarrow> server_impl \<Rightarrow> fault + (exn option \<times> server_impl)" where
  "applier_iteration env v s =
     (case v of
        entries_item batch \<Rightarrow>
          (if batch = [] then Inr (None, s)
           else (case apply_batch env batch s of
                   Inl f \<Rightarrow> Inl f
                 | Inr (Some e, s') \<Rightarrow> Inr (Some e, s')
                 | Inr (None, s') \<Rightarrow> Inr (None, signal_applied s')))
      | snapshot_item snp \<Rightarrow>
          (case apply_snapshot_item env snp s of
             Inl f \<Rightarrow> Inl f
           | Inr (Some e, s') \<Rightarrow> Inr (Some e, s')
           | Inr (None, s') \<Rightarrow> Inr (None, signal_applied s')))"

text \<open>
  The loop runs over the items the queue delivers; when the queue has been aborted,
  \<^verbatim>\<open>pop_eventually\<close> throws the \<^verbatim>\<open>stop_apply_fiber\<close> that \<^verbatim>\<open>abort\<close> put there.
\<close>

fun applier_loop :: "(applier_env \<times> apply_item) list \<Rightarrow> server_impl \<Rightarrow> fault + (exn \<times> server_impl)" where
  "applier_loop [] s = Inr (stop_apply_fiber, s)"
| "applier_loop ((env, v) # q) s =
     (case applier_iteration env v s of
        Inl f \<Rightarrow> Inl f
      | Inr (Some e, s') \<Rightarrow> Inr (e, s')
      | Inr (None, s') \<Rightarrow> applier_loop q s')"

text \<open>
  The \<^verbatim>\<open>try\<close> block around the loop (lines 699, 772-777): both handlers fall through
  to \<^verbatim>\<open>co_return\<close>, so the future of the fiber gets a value.
\<close>

definition applier_fiber :: "(applier_env \<times> apply_item) list \<Rightarrow> server_impl \<Rightarrow> fault + (outcome \<times> server_impl)" where
  "applier_fiber q s =
     (case applier_loop q s of
        Inl f \<Rightarrow> Inl f
      | Inr (e, s') \<Rightarrow>
          Inr (set_value, if e = stop_apply_fiber then s' else emit [log_error e] s'))"

subsection \<open>Stepdown\<close>

text \<open>
  \<^verbatim>\<open>stepdown\<close> (lines 1074-1085).  Whether \<^verbatim>\<open>transfer_leadership\<close> of the FSM throws
  is the argument \<open>transfer_throws\<close>; the call itself is an effect.
\<close>

definition stepdown :: "nat \<Rightarrow> exn option \<Rightarrow> server_impl \<Rightarrow> future \<times> server_impl" where
  "stepdown timeout transfer_throws s =
     (case stepdown_promise s of
        Some p \<Rightarrow> (exception_future (logic_error ''Stepdown is already in progress''), s)
      | None \<Rightarrow>
          (let s1 = emit [fsm_transfer_leadership timeout] s in
           case transfer_throws of
             Some e \<Rightarrow> (exception_future e, s1)
           | None \<Rightarrow>
               (case fresh_promise s1 of
                  (p, s2) \<Rightarrow> (pending_future p, s2\<lparr>stepdown_promise := Some p\<rparr>))))"

subsection \<open>Waiting for an index and for a leader\<close>

text \<open>\<^verbatim>\<open>wait_for_apply\<close> (lines 784-791) up to its suspension.\<close>

definition wait_for_apply :: "index_t \<Rightarrow> server_impl \<Rightarrow> future \<times> server_impl" where
  "wait_for_apply i s =
     (if i > applied_idx s
      then (case fresh_promise s of
              (p, s1) \<Rightarrow>
                (pending_future p, s1\<lparr>awaited_indexes := multimap_emplace i p (awaited_indexes s1)\<rparr>))
      else (ready_future, s))"

text \<open>
  \<^verbatim>\<open>wait_for_leader\<close> (lines 312-317); the shared future it returns is the future
  of the leader promise, which is named.
\<close>

definition wait_for_leader :: "server_impl \<Rightarrow> promise_id \<times> server_impl" where
  "wait_for_leader s =
     (case leader_promise s of
        None \<Rightarrow> (case fresh_promise s of (p, s1) \<Rightarrow> (p, s1\<lparr>leader_promise := Some p\<rparr>))
      | Some p \<Rightarrow> (p, s))"

subsection \<open>Submitting entries\<close>

text \<open>
  A coroutine is its suspension points: the function that runs it from one
  \<^verbatim>\<open>co_await\<close> to the next takes the point where it is suspended and the event that
  resumes it.  \<^verbatim>\<open>add_entry_internal\<close> (lines 319-336) is suspended in
  \<^verbatim>\<open>wait_max_log_size\<close>, with the entry's data and the wait type, or on the future
  of the promise it registered.  The entry \<^verbatim>\<open>_fsm->add_entry\<close> returns (its index
  and term), or the exception it throws, comes with the event.
\<close>

datatype add_entry_pc =
    awaiting_slot entry_data wait_type
  | awaiting_done promise_id
  | returned
  | threw exn

datatype resume_event =
    slot_failed exn
  | slot_ready "exn + (index_t \<times> term_t)"
  | promise_resolved outcome

definition add_entry_internal :: "entry_data \<Rightarrow> wait_type \<Rightarrow> add_entry_pc" where
  "add_entry_internal d w = awaiting_slot d w"

definition add_entry_internal_resume :: "resume_event \<Rightarrow> add_entry_pc \<Rightarrow> server_impl \<Rightarrow> fault + (add_entry_pc \<times> server_impl)" where
  "add_entry_internal_resume ev pc s =
     (case (pc, ev) of
        (awaiting_slot d w, slot_failed e) \<Rightarrow> Inr (threw e, s)
      | (awaiting_slot d w, slot_ready (Inl e)) \<Rightarrow> Inr (threw e, emit [fsm_add_entry d] s)
      | (awaiting_slot d w, slot_ready (Inr (i, t))) \<Rightarrow>
          (case fresh_promise (emit [fsm_add_entry d] s) of
             (p, s1) \<Rightarrow>
               (case map_emplace i \<lparr>op_term = t, op_done = p\<rparr> (container w s1) of
                  (ws, inserted) \<Rightarrow>
                    if \<not> inserted then Inl (assertion_failed ''inserted'')
                    else Inr (awaiting_done p, set_container w ws s1)))
      | (awaiting_done p, promise_resolved set_value) \<Rightarrow> Inr (returned, s)
      | (awaiting_done p, promise_resolved (set_exception e)) \<Rightarrow> Inr (threw e, s)
      | _ \<Rightarrow> Inr (pc, s))"

text \<open>\<^verbatim>\<open>add_entry\<close> (lines 338-341).\<close>

definition add_entry :: "command \<Rightarrow> wait_type \<Rightarrow> server_impl \<Rightarrow> add_entry_pc \<times> server_impl" where
  "add_entry c w s = (add_entry_internal (command_data c) w, count_add_command s)"

text \<open>
  \<^verbatim>\<open>set_configuration\<close> (lines 921-942).  The difference \<^verbatim>\<open>cfg.diff(c_new)\<close> is
  computed by a class declared outside this file; its result, the joining and the
  leaving members, is the argument \<open>diff\<close>.  The coroutine is suspended inside its first
  or its second call of \<^verbatim>\<open>add_entry_internal\<close>.
\<close>

datatype set_configuration_pc =
    in_configuration_entry add_entry_pc
  | in_dummy_entry add_entry_pc
  | set_configuration_returned
  | set_configuration_threw exn

definition set_configuration :: "server_id list \<times> server_id list \<Rightarrow> server_id list \<Rightarrow> server_impl \<Rightarrow> set_configuration_pc \<times> server_impl" where
  "set_configuration diff c_new s =
     (case diff of
        (joining, leaving) \<Rightarrow>
          if length joining = 0 \<and> length leaving = 0 then (set_configuration_returned, s)
          else (in_configuration_entry (add_entry_internal (configuration_data c_new) wait_committed),
                count_add_config s))"

definition set_configuration_resume :: "resume_event \<Rightarrow> set_configuration_pc \<Rightarrow> server_impl \<Rightarrow> fault + (set_configuration_pc \<times> server_impl)" where
  "set_configuration_resume ev pc s =
     (case pc of
        in_configuration_entry a \<Rightarrow>
          (case add_entry_internal_resume ev a s of
             Inl f \<Rightarrow> Inl f
           | Inr (returned, s') \<Rightarrow> Inr (in_dummy_entry (add_entry_internal dummy wait_committed), s')
           | Inr (threw e, s') \<Rightarrow> Inr (set_configuration_threw e, s')
           | Inr (a', s') \<Rightarrow> Inr (in_configuration_entry a', s'))
      | in_dummy_entry a \<Rightarrow>
          (case add_entry_internal_resume ev a s of
             Inl f \<Rightarrow> Inl f
           | Inr (returned, s') \<Rightarrow> Inr (set_configuration_returned, s')
           | Inr (threw e, s') \<Rightarrow> Inr (set_configuration_threw e, s')
           | Inr (a', s') \<Rightarrow> Inr (in_dummy_entry a', s'))
      | _ \<Rightarrow> Inr (pc, s))"

subsection \<open>Read barrier\<close>

text \<open>
  \<^verbatim>\<open>execute_read_barrier\<close> (lines 793-810).  What \<^verbatim>\<open>start_read_barrier\<close> of the FSM
  answers is the argument \<open>answer\<close>: the exception it throws, or the optional pair of a
  read id and an index.  The future the function returns is ready with a reply, or it
  is the future of the promise appended to \<^verbatim>\<open>_reads\<close>; an exception other than
  \<^verbatim>\<open>not_a_leader\<close> leaves the function.  \<^verbatim>\<open>get_read_idx\<close> (lines 812-818) calls it
  when the leader is this server, and the RPC module otherwise.
\<close>

datatype read_future = reply_ready read_barrier_reply | reply_of_promise promise_id | reply_of_rpc

type_synonym read_barrier_answer = "exn + (read_id \<times> index_t) option"

definition execute_read_barrier :: "server_id \<Rightarrow> read_barrier_answer \<Rightarrow> server_impl \<Rightarrow> (exn \<times> server_impl) + (read_future \<times> server_impl)" where
  "execute_read_barrier sender answer s =
     (let s1 = emit [fsm_start_read_barrier sender] s in
      case answer of
        Inl e \<Rightarrow>
          (case e of
             not_a_leader_error h \<Rightarrow> Inr (reply_ready (not_a_leader h), s1)
           | _ \<Rightarrow> Inl (e, s1))
      | Inr None \<Rightarrow> Inr (reply_ready not_ready, s1)
      | Inr (Some (rid, i)) \<Rightarrow>
          (case fresh_promise s1 of
             (p, s2) \<Rightarrow>
               Inr (reply_of_promise p,
                    s2\<lparr>reads := reads s2 @ [\<lparr>active_id = rid, active_idx = i, active_promise = p\<rparr>]\<rparr>)))"

definition get_read_idx :: "server_id \<Rightarrow> read_barrier_answer \<Rightarrow> server_impl \<Rightarrow> (exn \<times> server_impl) + (read_future \<times> server_impl)" where
  "get_read_idx leader answer s =
     (if self_id s = leader then execute_read_barrier (self_id s) answer s
      else Inr (reply_of_rpc, emit [rpc_read_barrier leader] s))"

text \<open>
  \<^verbatim>\<open>read_barrier\<close> (lines 820-850).  The locals that live across a suspension are
  part of the suspension point: \<^verbatim>\<open>leader\<close> everywhere in the loop, \<^verbatim>\<open>applied\<close> while
  the request to the leader is under way, together with the future awaited (of a
  promise in \<^verbatim>\<open>_reads\<close>, or of the RPC).  At \<open>at_loop\<close> the coroutine is about to test
  the condition of the loop, with the values of \<^verbatim>\<open>leader\<close> and \<^verbatim>\<open>read_idx\<close>; it is not
  suspended there, and the step from there (\<open>iterate\<close>) comes with what the FSM answers
  if that iteration asks it.  An event that resolves a promise names the promise; the
  coroutine is resumed by the one it awaits.  With the resolution of the leader promise
  comes what \<^verbatim>\<open>current_leader\<close> of the FSM says then.
\<close>

datatype read_barrier_pc =
    at_loop server_id index_t
  | awaiting_leader promise_id
  | awaiting_read_idx server_id index_t "promise_id option"
  | awaiting_retry server_id promise_id
  | awaiting_final promise_id
  | read_barrier_returned
  | read_barrier_threw exn

datatype read_barrier_event =
    iterate read_barrier_answer
  | leader_promise_resolved promise_id outcome server_id
  | reply_received "promise_id option" "exn + read_barrier_reply"
  | applied_promise promise_id outcome

text \<open>Lines 833-843: what the loop does with the reply of the leader.\<close>

definition read_barrier_reply_received :: "read_barrier_reply \<Rightarrow> server_id \<Rightarrow> index_t \<Rightarrow> server_impl \<Rightarrow> read_barrier_pc \<times> server_impl" where
  "read_barrier_reply_received res leader applied s =
     (case res of
        not_ready \<Rightarrow>
          (case wait_for_apply (applied + 1) s of
             (pending_future p, s1) \<Rightarrow> (awaiting_retry leader p, s1)
           | (exception_future e, s1) \<Rightarrow> (read_barrier_threw e, s1)
           | (ready_future, s1) \<Rightarrow> (at_loop leader 0, s1))
      | not_a_leader h \<Rightarrow> (at_loop h 0, s)
      | read_index i \<Rightarrow> (at_loop leader i, s))"

text \<open>
  From the test of the loop to the next suspension point, to the next test of the
  loop, or to the end of the function (lines 826-849).
\<close>

definition read_barrier_iteration :: "server_id \<Rightarrow> index_t \<Rightarrow> read_barrier_answer \<Rightarrow> server_impl \<Rightarrow> read_barrier_pc \<times> server_impl" where
  "read_barrier_iteration leader read_idx answer s =
     (if read_idx = 0
      then (if leader = 0
            then (case wait_for_leader s of (p, s1) \<Rightarrow> (awaiting_leader p, s1))
            else (let applied = applied_idx s in
                  case get_read_idx leader answer s of
                    Inl (e, s1) \<Rightarrow> (read_barrier_threw e, s1)
                  | Inr (reply_ready res, s1) \<Rightarrow> read_barrier_reply_received res leader applied s1
                  | Inr (reply_of_promise p, s1) \<Rightarrow> (awaiting_read_idx leader applied (Some p), s1)
                  | Inr (reply_of_rpc, s1) \<Rightarrow> (awaiting_read_idx leader applied None, s1)))
      else (case wait_for_apply read_idx s of
              (pending_future p, s1) \<Rightarrow> (awaiting_final p, s1)
            | (exception_future e, s1) \<Rightarrow> (read_barrier_threw e, s1)
            | (ready_future, s1) \<Rightarrow> (read_barrier_returned, s1)))"

definition read_barrier :: "server_id \<Rightarrow> server_impl \<Rightarrow> read_barrier_pc \<times> server_impl" where
  "read_barrier current_leader s = (at_loop current_leader 0, s)"

definition read_barrier_resume :: "read_barrier_event \<Rightarrow> read_barrier_pc \<Rightarrow> server_impl \<Rightarrow> read_barrier_pc \<times> server_impl" where
  "read_barrier_resume ev pc s =
     (case (pc, ev) of
        (at_loop leader read_idx, iterate answer) \<Rightarrow> read_barrier_iteration leader read_idx answer s
      | (awaiting_leader p, leader_promise_resolved q r leader) \<Rightarrow>
          (if q \<noteq> p then (pc, s)
           else (case r of
                   set_value \<Rightarrow> (at_loop leader 0, s)
                 | set_exception e \<Rightarrow> (read_barrier_threw e, s)))
      | (awaiting_read_idx leader applied awaited, reply_received resolved r) \<Rightarrow>
          (if resolved \<noteq> awaited then (pc, s)
           else (case r of
                   Inl e \<Rightarrow> (read_barrier_threw e, s)
                 | Inr res \<Rightarrow> read_barrier_reply_received res leader applied s))
      | (awaiting_retry leader p, applied_promise q r) \<Rightarrow>
          (if q \<noteq> p then (pc, s)
           else (case r of
                   set_value \<Rightarrow> (at_loop leader 0, s)
                 | set_exception e \<Rightarrow> (read_barrier_threw e, s)))
      | (awaiting_final p, applied_promise q r) \<Rightarrow>
          (if q \<noteq> p then (pc, s)
           else (case r of
                   set_value \<Rightarrow> (read_barrier_returned, s)
                 | set_exception e \<Rightarrow> (read_barrier_threw e, s)))
      | _ \<Rightarrow> (pc, s))"

subsection \<open>Messages and snapshot transfers\<close>

text \<open>
  \<^verbatim>\<open>send_snapshot\<close> (lines 651-676) registers the transfer and leaves the sending to
  a continuation that runs later (\<open>schedule_send_snapshot\<close>).  \<open>snapshot_transfer_done\<close>
  is what follows the sending (lines 657-671), with the reply of the destination, or the
  exception, and the current term of the FSM.
\<close>

definition send_snapshot :: "server_id \<Rightarrow> snapshot_descriptor \<Rightarrow> server_impl \<Rightarrow> fault + server_impl" where
  "send_snapshot dst snap s =
     (let tid = next_snapshot_transfer_id s;
          s1 = emit [schedule_send_snapshot dst snap tid] (s\<lparr>next_snapshot_transfer_id := tid + 1\<rparr>)
      in if contains_key dst (snapshot_transfers s1) then Inl (assertion_failed ''res.second'')
         else Inr (s1\<lparr>snapshot_transfers := snapshot_transfers s1 @ [(dst, tid)]\<rparr>))"

definition snapshot_transfer_done :: "server_id \<Rightarrow> 64 word \<Rightarrow> exn + (term_t \<times> bool) \<Rightarrow> term_t \<Rightarrow> server_impl \<Rightarrow> server_impl" where
  "snapshot_transfer_done dst tid result current_term s =
     (if tid \<in> set (aborted_snapshot_transfers s)
      then s\<lparr>aborted_snapshot_transfers := removeAll tid (aborted_snapshot_transfers s)\<rparr>
      else (let s1 = s\<lparr>snapshot_transfers := erase_key dst (snapshot_transfers s)\<rparr> in
            case result of
              Inl e \<Rightarrow> emit [log_error e, fsm_step dst (snapshot_reply current_term False)] s1
            | Inr (t, success) \<Rightarrow> emit [fsm_step dst (snapshot_reply t success)] s1))"

text \<open>\<^verbatim>\<open>abort_snapshot_transfer\<close> and \<^verbatim>\<open>abort_snapshot_transfers\<close> (lines 852-870).\<close>

definition emplace_id :: "64 word \<Rightarrow> 64 word list \<Rightarrow> 64 word list" where
  "emplace_id tid tids = (if tid \<in> set tids then tids else tids @ [tid])"

definition abort_snapshot_transfer :: "server_id \<Rightarrow> server_impl \<Rightarrow> server_impl" where
  "abort_snapshot_transfer dst s =
     (case map_of (snapshot_transfers s) dst of
        Some tid \<Rightarrow>
          (emit [request_abort tid] s)
            \<lparr>aborted_snapshot_transfers := emplace_id tid (aborted_snapshot_transfers s),
             snapshot_transfers := erase_key dst (snapshot_transfers s)\<rparr>
      | None \<Rightarrow> s)"

definition abort_snapshot_transfers :: "server_impl \<Rightarrow> server_impl" where
  "abort_snapshot_transfers s =
     (emit (map (\<lambda>t. request_abort (snd t)) (snapshot_transfers s)) s)
       \<lparr>aborted_snapshot_transfers :=
          foldl (\<lambda>tids t. emplace_id (snd t) tids) (aborted_snapshot_transfers s) (snapshot_transfers s),
        snapshot_transfers := []\<rparr>"

text \<open>
  \<^verbatim>\<open>send_message\<close> (lines 450-505).  Only a call of the RPC module can throw
  (\<open>rpc_throws\<close>).  An append request is chained to the queue of its destination; the
  continuation chained (lines 460-474) is \<open>append_request_sent\<close>, from the call of
  \<^verbatim>\<open>send_append_entries\<close>, which throws or not, to its end.  \<^verbatim>\<open>operator[]\<close> creates
  the element of a key that has none.
\<close>

definition send_to :: "exn option \<Rightarrow> server_id \<Rightarrow> message \<Rightarrow> (stats \<Rightarrow> stats) \<Rightarrow> server_impl \<Rightarrow> stop + server_impl" where
  "send_to rpc_throws dst m counter s = call (rpc_send dst m) rpc_throws (counted counter s)"

definition send_message :: "exn option \<Rightarrow> server_id \<Rightarrow> message \<Rightarrow> server_impl \<Rightarrow> stop + server_impl" where
  "send_message rpc_throws dst m s =
     (case m of
        append_reply \<Rightarrow> send_to rpc_throws dst m (append_entries_reply_sent_update (\<lambda>n. n + 1)) s
      | append_request \<Rightarrow>
          (let s1 = counted (append_entries_sent_update (\<lambda>n. n + 1)) s;
               c = (case map_of (append_request_status s1) dst of Some c \<Rightarrow> c | None \<Rightarrow> 0)
           in Inr (emit [chain_append_entries dst]
                     (s1\<lparr>append_request_status := put_key dst (c + 1) (append_request_status s1)\<rparr>)))
      | vote_request \<Rightarrow> send_to rpc_throws dst m (vote_request_sent_update (\<lambda>n. n + 1)) s
      | vote_reply \<Rightarrow> send_to rpc_throws dst m (vote_request_reply_sent_update (\<lambda>n. n + 1)) s
      | timeout_now \<Rightarrow> send_to rpc_throws dst m (timeout_now_sent_update (\<lambda>n. n + 1)) s
      | read_quorum \<Rightarrow> send_to rpc_throws dst m (read_quorum_sent_update (\<lambda>n. n + 1)) s
      | read_quorum_reply \<Rightarrow> send_to rpc_throws dst m (read_quorum_reply_sent_update (\<lambda>n. n + 1)) s
      | install_snapshot snap \<Rightarrow>
          (case send_snapshot dst snap (counted (install_snapshot_sent_update (\<lambda>n. n + 1)) s) of
             Inl f \<Rightarrow> Inl (crashed f)
           | Inr s1 \<Rightarrow> Inr s1)
      | snapshot_reply t success \<Rightarrow>
          (let s1 = counted (snapshot_reply_sent_update (\<lambda>n. n + 1)) s in
           case map_of (snapshot_application_done s1) dst of
             None \<Rightarrow> Inl (crashed (assertion_failed ''_snapshot_application_done.contains(id)''))
           | Some p \<Rightarrow>
               Inr (emit [resolve_snapshot_reply p t success]
                      (s1\<lparr>snapshot_application_done := erase_key dst (snapshot_application_done s1)\<rparr>))))"

definition append_request_sent :: "exn option \<Rightarrow> server_id \<Rightarrow> server_impl \<Rightarrow> server_impl" where
  "append_request_sent send_throws dst s =
     (let s1 = emit (rpc_send dst append_request #
                      (case send_throws of Some e \<Rightarrow> [log_debug e] | None \<Rightarrow> [])) s;
          c = (case map_of (append_request_status s1) dst of Some c \<Rightarrow> c | None \<Rightarrow> 0) - 1
      in s1\<lparr>append_request_status :=
               (if c = 0 then erase_key dst (append_request_status s1)
                else put_key dst c (append_request_status s1))\<rparr>)"

text \<open>
  \<^verbatim>\<open>apply_snapshot\<close> (lines 678-694): the coroutine is suspended on the future of the
  promise it puts into \<^verbatim>\<open>_snapshot_application_done\<close>, with the id of the snapshot and
  the reply it starts from (the current term of the FSM, no success).  The event that
  resumes it names the promise and brings the reply the promise got, or the exception,
  and whether \<^verbatim>\<open>drop_snapshot\<close> throws.
\<close>

datatype apply_snapshot_pc =
    awaiting_application promise_id snapshot_id term_t
  | apply_snapshot_returned term_t bool
  | apply_snapshot_threw exn

datatype apply_snapshot_event = application_done promise_id "exn + (term_t \<times> bool)" "exn option"

definition apply_snapshot :: "server_id \<Rightarrow> snapshot_descriptor \<Rightarrow> term_t \<Rightarrow> server_impl \<Rightarrow> fault + (apply_snapshot_pc \<times> server_impl)" where
  "apply_snapshot sender snap current_term s =
     (let s1 = emit [fsm_step sender (install_snapshot snap)] s in
      if contains_key sender (snapshot_application_done s1)
      then Inl (assertion_failed ''! _snapshot_application_done.contains(from)'')
      else (case fresh_promise s1 of
              (p, s2) \<Rightarrow>
                Inr (awaiting_application p (snp_id snap) current_term,
                     s2\<lparr>snapshot_application_done := snapshot_application_done s2 @ [(sender, p)]\<rparr>)))"

definition drop_failed_snapshot :: "snapshot_id \<Rightarrow> term_t \<Rightarrow> bool \<Rightarrow> exn option \<Rightarrow> server_impl \<Rightarrow> apply_snapshot_pc \<times> server_impl" where
  "drop_failed_snapshot snapshot t success drop_throws s =
     (if \<not> success
      then (case drop_throws of
              Some e \<Rightarrow> (apply_snapshot_threw e, emit [sm_drop_snapshot snapshot] s)
            | None \<Rightarrow> (apply_snapshot_returned t success, emit [sm_drop_snapshot snapshot] s))
      else (apply_snapshot_returned t success, s))"

definition apply_snapshot_resume :: "apply_snapshot_event \<Rightarrow> apply_snapshot_pc \<Rightarrow> server_impl \<Rightarrow> apply_snapshot_pc \<times> server_impl" where
  "apply_snapshot_resume ev pc s =
     (case (pc, ev) of
        (awaiting_application p snapshot t, application_done q r drop_throws) \<Rightarrow>
          (if q \<noteq> p then (pc, s)
           else (case r of
                   Inl e \<Rightarrow> drop_failed_snapshot snapshot t False drop_throws (emit [log_error e] s)
                 | Inr (t', success) \<Rightarrow> drop_failed_snapshot snapshot t' success drop_throws s))
      | _ \<Rightarrow> (pc, s))"

text \<open>
  The functions of the RPC server interface that hand a message to the FSM (lines
  343-376); \<open>read_quorum_reply_request\<close> is \<^verbatim>\<open>read_quorum_reply\<close>, whose name the
  message has here.
\<close>

definition append_entries :: "server_id \<Rightarrow> server_impl \<Rightarrow> server_impl" where
  "append_entries sender s =
     emit [fsm_step sender append_request] (counted (append_entries_received_update (\<lambda>n. n + 1)) s)"

definition append_entries_reply :: "server_id \<Rightarrow> server_impl \<Rightarrow> server_impl" where
  "append_entries_reply sender s =
     emit [fsm_step sender append_reply] (counted (append_entries_reply_received_update (\<lambda>n. n + 1)) s)"

definition request_vote :: "server_id \<Rightarrow> server_impl \<Rightarrow> server_impl" where
  "request_vote sender s =
     emit [fsm_step sender vote_request] (counted (request_vote_received_update (\<lambda>n. n + 1)) s)"

definition request_vote_reply :: "server_id \<Rightarrow> server_impl \<Rightarrow> server_impl" where
  "request_vote_reply sender s =
     emit [fsm_step sender vote_reply] (counted (request_vote_reply_received_update (\<lambda>n. n + 1)) s)"

definition timeout_now_request :: "server_id \<Rightarrow> server_impl \<Rightarrow> server_impl" where
  "timeout_now_request sender s =
     emit [fsm_step sender timeout_now] (counted (timeout_now_received_update (\<lambda>n. n + 1)) s)"

definition read_quorum_request :: "server_id \<Rightarrow> server_impl \<Rightarrow> server_impl" where
  "read_quorum_request sender s =
     emit [fsm_step sender read_quorum] (counted (read_quorum_received_update (\<lambda>n. n + 1)) s)"

definition read_quorum_reply_request :: "server_id \<Rightarrow> server_impl \<Rightarrow> server_impl" where
  "read_quorum_reply_request sender s =
     emit [fsm_step sender read_quorum_reply] (counted (read_quorum_reply_received_update (\<lambda>n. n + 1)) s)"

subsection \<open>The I/O fiber\<close>

text \<open>
  One iteration of the loop of \<^verbatim>\<open>io_fiber\<close> (lines 525-640) takes the batch
  \<^verbatim>\<open>poll_output\<close> delivers and what persistence, the RPC module and the apply queue
  answer (\<open>io_env\<close>).  A call that throws leaves the loop body with the state as it is
  then; a counter that follows the call is not incremented.
\<close>

record fsm_output =
  term_and_vote :: "(term_t \<times> server_id) option"
  snp :: "(snapshot_descriptor \<times> bool \<times> snapshot_id) option"
  log_entries :: "log_entry list"
  messages :: "(server_id \<times> message) list"
  configuration :: "server_id list option"
  committed :: "log_entry list"
  max_read_id_with_quorum :: "read_id option"
  abort_leadership_transfer :: bool

record io_env =
  poll_output :: "exn + fsm_output"
  store_term_and_vote_throws :: "exn option"
  store_snapshot_descriptor_throws :: "exn option"
  drop_snapshot_throws :: "exn option"
  push_snapshot_throws :: "exn option"
  truncate_log_throws :: "exn option"
  store_log_entries_throws :: "exn option"
  add_server_throws :: "exn option"
  send_throws :: "exn option"
  remove_server_throws :: "exn option"
  push_committed_throws :: "exn option"
  is_leader :: bool
  current_leader :: server_id

definition persist_term_and_vote :: "io_env \<Rightarrow> fsm_output \<Rightarrow> server_impl \<Rightarrow> stop + server_impl" where
  "persist_term_and_vote env batch s =
     (case term_and_vote batch of
        Some (t, v) \<Rightarrow>
          and_then (call (store_term_and_vote t v) (store_term_and_vote_throws env) s)
            (\<lambda>s1. Inr (counted (store_term_and_vote_count_update (\<lambda>n. n + 1)) s1))
      | None \<Rightarrow> Inr s)"

definition persist_snapshot :: "io_env \<Rightarrow> fsm_output \<Rightarrow> server_impl \<Rightarrow> stop + server_impl" where
  "persist_snapshot env batch s =
     (case snp batch of
        Some (snap, is_local, old_id) \<Rightarrow>
          and_then (call (store_snapshot_descriptor snap (if is_local then snapshot_trailing (config s) else 0))
                      (store_snapshot_descriptor_throws env) s)
            (\<lambda>s1. and_then (call (sm_drop_snapshot old_id) (drop_snapshot_throws env)
                               (counted (store_snapshot_count_update (\<lambda>n. n + 1)) s1))
               (\<lambda>s2. if \<not> is_local
                      then call (push_eventually (snapshot_item snap)) (push_snapshot_throws env) s2
                      else Inr s2))
      | None \<Rightarrow> Inr s)"

definition persist_log_entries :: "io_env \<Rightarrow> fsm_output \<Rightarrow> index_t \<Rightarrow> server_impl \<Rightarrow> stop + (index_t \<times> server_impl)" where
  "persist_log_entries env batch last_stable s =
     (let entries = log_entries batch in
      if length entries \<noteq> 0
      then and_then (if last_stable \<ge> idx (hd entries)
                     then and_then (call (truncate_log (idx (hd entries))) (truncate_log_throws env) s)
                            (\<lambda>s0. Inr (counted (truncate_persisted_log_update (\<lambda>n. n + 1)) s0))
                     else Inr s)
             (\<lambda>s1. and_then (call (store_log_entries entries) (store_log_entries_throws env) s1)
                (\<lambda>s2. Inr (idx (last entries),
                            counted (persisted_log_entries_update (\<lambda>n. n + of_nat (length entries))) s2)))
      else Inr (last_stable, s))"

text \<open>
  Lines 587-594: the messages of the batch.  What \<^verbatim>\<open>send_message\<close> throws is caught
  and logged where it is called; a failed \<^verbatim>\<open>assert\<close> is not.
\<close>

fun send_messages :: "exn option \<Rightarrow> (server_id \<times> message) list \<Rightarrow> server_impl \<Rightarrow> stop + server_impl" where
  "send_messages rpc_throws [] s = Inr s"
| "send_messages rpc_throws (m # ms) s =
     (case send_message rpc_throws (fst m) (snd m) s of
        Inl (crashed f) \<Rightarrow> Inl (crashed f)
      | Inl (thrown e s1) \<Rightarrow> send_messages rpc_throws ms (emit [log_debug e] s1)
      | Inr s1 \<Rightarrow> send_messages rpc_throws ms s1)"

text \<open>Lines 596-602: the addresses that leave.\<close>

fun remove_leaving :: "exn option \<Rightarrow> server_id list \<Rightarrow> server_impl \<Rightarrow> stop + server_impl" where
  "remove_leaving throws [] s = Inr s"
| "remove_leaving throws (addr # leaving) s =
     and_then (call (rpc_remove_server addr) throws
                 (remove_from_rpc_config addr (abort_snapshot_transfer addr s)))
       (remove_leaving throws leaving)"

text \<open>Lines 576-602: the RPC address set around the dispatch of the messages.\<close>

definition dispatch :: "io_env \<Rightarrow> fsm_output \<Rightarrow> server_impl \<Rightarrow> stop + server_impl" where
  "dispatch env batch s =
     (let rpc_diff = (case configuration batch of
                        Some c \<Rightarrow> diff_address_sets (current_rpc_config s) c
                      | None \<Rightarrow> ([], []))
      in and_then (add_joining (add_server_throws env) (fst rpc_diff) s)
           (\<lambda>s1. and_then (send_messages (send_throws env) (messages batch) s1)
              (remove_leaving (remove_server_throws env) (snd rpc_diff))))"

definition queue_committed :: "io_env \<Rightarrow> fsm_output \<Rightarrow> server_impl \<Rightarrow> stop + server_impl" where
  "queue_committed env batch s =
     (if length (committed batch) \<noteq> 0
      then call (push_eventually (entries_item (committed batch))) (push_committed_throws env)
             (counted (queue_entries_for_apply_update (\<lambda>n. n + of_nat (length (committed batch)))) s)
      else Inr s)"

text \<open>Lines 610-615: the reads that got their quorum.\<close>

fun resolve_reads :: "read_id \<Rightarrow> active_read list \<Rightarrow> active_read list \<times> effect list" where
  "resolve_reads m [] = ([], [])"
| "resolve_reads m (r # rs) =
     (if active_id r \<le> m
      then (case resolve_reads m rs of
              (rs', evs) \<Rightarrow> (rs', resolve_read (active_promise r) (read_index (active_idx r)) # evs))
      else (r # rs, []))"

definition confirm_reads :: "fsm_output \<Rightarrow> server_impl \<Rightarrow> server_impl" where
  "confirm_reads batch s =
     (case max_read_id_with_quorum batch of
        Some m \<Rightarrow> (case resolve_reads m (reads s) of (rs', evs) \<Rightarrow> emit evs (s\<lparr>reads := rs'\<rparr>))
      | None \<Rightarrow> s)"

text \<open>Lines 616-639: what follows a change of leadership.\<close>

definition leadership :: "io_env \<Rightarrow> fsm_output \<Rightarrow> server_impl \<Rightarrow> server_impl" where
  "leadership env batch s =
     (let s4 =
        (if \<not> is_leader env
         then (let s1 = (case stepdown_promise s of
                           Some p \<Rightarrow> emit [resolve p set_value] (s\<lparr>stepdown_promise := None\<rparr>)
                         | None \<Rightarrow> s);
                   s2 = (if self_id s1 \<notin> set (current_rpc_config s1) then drop_waiters None s1 else s1);
                   s3 = abort_snapshot_transfers s2
               in emit (map (\<lambda>r. resolve_read (active_promise r) (not_a_leader (current_leader env))) (reads s3))
                    (s3\<lparr>reads := []\<rparr>))
         else if abort_leadership_transfer batch
         then (case stepdown_promise s of
                 Some p \<Rightarrow> emit [resolve p (set_exception (timeout_error ''Stepdown process timed out''))]
                             (s\<lparr>stepdown_promise := None\<rparr>)
               | None \<Rightarrow> s)
         else s)
      in (case leader_promise s4 of
            Some p \<Rightarrow> if current_leader env \<noteq> 0
                      then emit [resolve p set_value] (s4\<lparr>leader_promise := None\<rparr>) else s4
          | None \<Rightarrow> s4))"

definition io_iteration :: "io_env \<Rightarrow> index_t \<Rightarrow> server_impl \<Rightarrow> stop + (index_t \<times> server_impl)" where
  "io_iteration env last_stable s =
     (case poll_output env of
        Inl e \<Rightarrow> Inl (thrown e s)
      | Inr batch \<Rightarrow>
          and_then (persist_term_and_vote env batch (counted (polls_update (\<lambda>n. n + 1)) s))
            (\<lambda>s1. and_then (persist_snapshot env batch s1)
               (\<lambda>s2. and_then (persist_log_entries env batch last_stable s2)
                  (\<lambda>(last_stable', s3). and_then (dispatch env batch s3)
                     (\<lambda>s4. and_then (queue_committed env batch s4)
                        (\<lambda>s5. Inr (last_stable', leadership env batch (confirm_reads batch s5))))))))"

text \<open>
  The loop runs over the batches the FSM delivers; when the FSM has been stopped,
  \<^verbatim>\<open>poll_output\<close> throws \<^verbatim>\<open>broken_condition_variable\<close>.
\<close>

fun io_loop :: "io_env list \<Rightarrow> index_t \<Rightarrow> server_impl \<Rightarrow> fault + (exn \<times> server_impl)" where
  "io_loop [] last_stable s = Inr (broken_condition_variable, s)"
| "io_loop (env # envs) last_stable s =
     (case io_iteration env last_stable s of
        Inl (crashed f) \<Rightarrow> Inl f
      | Inl (thrown e s') \<Rightarrow> Inr (e, s')
      | Inr (last_stable', s') \<Rightarrow> io_loop envs last_stable' s')"

text \<open>
  The \<^verbatim>\<open>try\<close> block around the loop (lines 524, 641-648): the three handlers fall
  through to \<^verbatim>\<open>co_return\<close>; the last one writes the exception to the log.
\<close>

definition io_fiber :: "io_env list \<Rightarrow> index_t \<Rightarrow> server_impl \<Rightarrow> fault + (outcome \<times> server_impl)" where
  "io_fiber envs last_stable s =
     (case io_loop envs last_stable s of
        Inl f \<Rightarrow> Inl f
      | Inr (e, s') \<Rightarrow>
          Inr (set_value,
               if e = broken_condition_variable \<or> e = stop_apply_fiber then s'
               else emit [log_error e] s'))"

subsection \<open>Abort\<close>

text \<open>
  \<^verbatim>\<open>abort\<close> (lines 872-919).  \<open>io_status\<close> and \<open>applier_status\<close> are what the futures
  of the two fibers hold; \<^verbatim>\<open>when_all_succeed\<close> fails with the exception of a future that
  failed (the first one, here) and has a value when none did.  \<open>transfers_throw\<close> is
  what the futures of the aborted snapshot transfers and of the append requests, which
  the last \<^verbatim>\<open>co_await\<close> joins, fail with.
\<close>

record abort_env =
  rpc_abort_throws :: "exn option"
  sm_abort_throws :: "exn option"
  persistence_abort_throws :: "exn option"
  transfers_throw :: "exn option"

definition future_of :: "exn option \<Rightarrow> outcome" where
  "future_of throws = (case throws of Some e \<Rightarrow> set_exception e | None \<Rightarrow> set_value)"

fun when_all_succeed :: "outcome list \<Rightarrow> outcome" where
  "when_all_succeed [] = set_value"
| "when_all_succeed (set_value # fs) = when_all_succeed fs"
| "when_all_succeed (set_exception e # fs) = set_exception e"

definition abort :: "abort_env \<Rightarrow> outcome \<Rightarrow> outcome \<Rightarrow> server_impl \<Rightarrow> outcome \<times> server_impl" where
  "abort env io_status applier_status s =
     (let s1 = emit [fsm_stop, queue_abort, rpc_abort, sm_abort, persistence_abort] s in
      case when_all_succeed [io_status, applier_status, future_of (rpc_abort_throws env),
             future_of (sm_abort_throws env), future_of (persistence_abort_throws env)] of
        set_exception e \<Rightarrow> (set_exception e, s1)
      | set_value \<Rightarrow>
          (let s2 = emit (map (\<lambda>ac. resolve (op_done (snd ac)) (set_exception stopped_error)) (awaited_commits s1)) s1;
               s3 = emit (map (\<lambda>aa. resolve (op_done (snd aa)) (set_exception stopped_error)) (awaited_applies s2)) s2;
               s4 = s3\<lparr>awaited_commits := [], awaited_applies := []\<rparr>;
               s5 = (case leader_promise s4 of
                       Some p \<Rightarrow> emit [resolve p (set_exception stopped_error)] s4
                     | None \<Rightarrow> s4);
               s6 = (emit (map (\<lambda>r. resolve_read (active_promise r) (not_a_leader 0)) (reads s5)) s5)\<lparr>reads := []\<rparr>;
               s7 = (emit (map (\<lambda>i. resolve (snd i) (set_exception stopped_error)) (awaited_indexes s6)) s6)
                      \<lparr>awaited_indexes := []\<rparr>;
               s8 = emit (map (\<lambda>d. resolve (snd d) (set_exception (runtime_error ''Snapshot application aborted'')))
                            (snapshot_application_done s7)) s7;
               s9 = abort_snapshot_transfers s8
           in (future_of (transfers_throw env), s9)))"

subsection \<open>The operations of the server\<close>

text \<open>
  Everything above that changes the state of a started server, as one step function:
  an iteration of either fiber, a call of the public interface or of the RPC server
  interface, the resumption of a coroutine, or the end of a send that runs in the
  background.  \<^verbatim>\<open>start\<close> is not among them: it runs once, on the server the
  constructor built, and it is what starts the fibers; \<open>server_lifetime\<close> is that
  order, the constructor, then \<^verbatim>\<open>start\<close>, then operations, and gives the value of
  \<^verbatim>\<open>_applied_idx\<close> after each of them.  The functions that only ask or tick the FSM
  (lines 1021-1060) change nothing of this state.
\<close>

datatype server_op =
    applier_op applier_env apply_item
  | io_op io_env index_t
  | add_entry_op command wait_type
  | add_entry_resume_op resume_event add_entry_pc
  | set_configuration_op "server_id list \<times> server_id list" "server_id list"
  | set_configuration_resume_op resume_event set_configuration_pc
  | read_barrier_op server_id
  | read_barrier_resume_op read_barrier_event read_barrier_pc
  | execute_read_barrier_op server_id read_barrier_answer
  | apply_snapshot_op server_id snapshot_descriptor term_t
  | apply_snapshot_resume_op apply_snapshot_event apply_snapshot_pc
  | snapshot_transfer_done_op server_id "64 word" "exn + (term_t \<times> bool)" term_t
  | append_request_sent_op "exn option" server_id
  | append_entries_op server_id
  | append_entries_reply_op server_id
  | request_vote_op server_id
  | request_vote_reply_op server_id
  | timeout_now_request_op server_id
  | read_quorum_request_op server_id
  | read_quorum_reply_request_op server_id
  | stepdown_op nat "exn option"
  | abort_op abort_env outcome outcome

definition server_step :: "server_op \<Rightarrow> server_impl \<Rightarrow> fault + server_impl" where
  "server_step operation s =
     (case operation of
        applier_op env v \<Rightarrow> map_sum id snd (applier_iteration env v s)
      | io_op env last_stable \<Rightarrow>
          (case io_iteration env last_stable s of
             Inl (crashed f) \<Rightarrow> Inl f
           | Inl (thrown e s') \<Rightarrow> Inr s'
           | Inr (l, s') \<Rightarrow> Inr s')
      | add_entry_op c w \<Rightarrow> Inr (snd (add_entry c w s))
      | add_entry_resume_op ev pc \<Rightarrow> map_sum id snd (add_entry_internal_resume ev pc s)
      | set_configuration_op diff c_new \<Rightarrow> Inr (snd (set_configuration diff c_new s))
      | set_configuration_resume_op ev pc \<Rightarrow> map_sum id snd (set_configuration_resume ev pc s)
      | read_barrier_op l \<Rightarrow> Inr (snd (read_barrier l s))
      | read_barrier_resume_op ev pc \<Rightarrow> Inr (snd (read_barrier_resume ev pc s))
      | execute_read_barrier_op sender answer \<Rightarrow>
          (case execute_read_barrier sender answer s of Inl (e, s') \<Rightarrow> Inr s' | Inr (f, s') \<Rightarrow> Inr s')
      | apply_snapshot_op sender snap t \<Rightarrow> map_sum id snd (apply_snapshot sender snap t s)
      | apply_snapshot_resume_op ev pc \<Rightarrow> Inr (snd (apply_snapshot_resume ev pc s))
      | snapshot_transfer_done_op dst tid result t \<Rightarrow> Inr (snapshot_transfer_done dst tid result t s)
      | append_request_sent_op throws dst \<Rightarrow> Inr (append_request_sent throws dst s)
      | append_entries_op sender \<Rightarrow> Inr (append_entries sender s)
      | append_entries_reply_op sender \<Rightarrow> Inr (append_entries_reply sender s)
      | request_vote_op sender \<Rightarrow> Inr (request_vote sender s)
      | request_vote_reply_op sender \<Rightarrow> Inr (request_vote_reply sender s)
      | timeout_now_request_op sender \<Rightarrow> Inr (timeout_now_request sender s)
      | read_quorum_request_op sender \<Rightarrow> Inr (read_quorum_request sender s)
      | read_quorum_reply_request_op sender \<Rightarrow> Inr (read_quorum_reply_request sender s)
      | stepdown_op timeout throws \<Rightarrow> Inr (snd (stepdown timeout throws s))
      | abort_op env io_status applier_status \<Rightarrow> Inr (snd (abort env io_status applier_status s)))"

fun run_ops :: "server_op list \<Rightarrow> server_impl \<Rightarrow> fault + server_impl" where
  "run_ops [] s = Inr s"
| "run_ops (operation # ops) s =
     (case server_step operation s of Inl f \<Rightarrow> Inl f | Inr s' \<Rightarrow> run_ops ops s')"

fun applied_after :: "server_op list \<Rightarrow> server_impl \<Rightarrow> index_t list" where
  "applied_after [] s = []"
| "applied_after (operation # ops) s =
     (case server_step operation s of
        Inl f \<Rightarrow> []
      | Inr s' \<Rightarrow> applied_idx s' # applied_after ops s')"

definition server_lifetime :: "server_id \<Rightarrow> server_configuration \<Rightarrow> start_env \<Rightarrow> server_op list \<Rightarrow> index_t list" where
  "server_lifetime uuid cfg env ops =
     (case server_impl_ctor uuid cfg of
        Inl e \<Rightarrow> []
      | Inr s0 \<Rightarrow>
          applied_idx s0 #
          (case start env s0 of
             Inl e \<Rightarrow> []
           | Inr s1 \<Rightarrow> applied_idx s1 # applied_after ops s1))"

text \<open>
  The order of two resolutions in a list of effects: promise \<open>p\<close> is resolved before
  promise \<open>q\<close> when \<open>q\<close> is not resolved at all, or \<open>p\<close> is, at an earlier position.
\<close>

fun resolution_pos :: "promise_id \<Rightarrow> effect list \<Rightarrow> nat option" where
  "resolution_pos p [] = None"
| "resolution_pos p (resolve q r # evs) =
     (if p = q then Some 0 else map_option Suc (resolution_pos p evs))"
| "resolution_pos p (ev # evs) = map_option Suc (resolution_pos p evs)"

definition is_resolved :: "promise_id \<Rightarrow> effect list \<Rightarrow> bool" where
  "is_resolved p evs = (resolution_pos p evs \<noteq> None)"

definition resolved_before :: "effect list \<Rightarrow> promise_id \<Rightarrow> promise_id \<Rightarrow> bool" where
  "resolved_before evs p q =
     (case resolution_pos q evs of
        None \<Rightarrow> True
      | Some j \<Rightarrow> (case resolution_pos p evs of None \<Rightarrow> False | Some i \<Rightarrow> i < j))"

section \<open>Vocabulary of the statements\<close>

text \<open>
  What a loop of the waiter registry does to the waiter it visits, and the tests that
  keep the loops going: \<open>in_batch\<close> for the first loop of \<^verbatim>\<open>notify_waiters\<close>, \<open>stale\<close>
  for its second loop, \<open>covered\<close> for \<^verbatim>\<open>drop_waiters\<close>.
\<close>

definition notify_one :: "log_entry list \<Rightarrow> index_t \<times> op_status \<Rightarrow> effect" where
  "notify_one entries w =
     resolve (op_done (snd w))
       (if op_term (snd w) = entry_term (entries ! (fst w - idx (hd entries)))
        then set_value else set_exception dropped_entry)"

definition fail_with :: "exn \<Rightarrow> index_t \<times> op_status \<Rightarrow> effect" where
  "fail_with e w = resolve (op_done (snd w)) (set_exception e)"

definition stale :: "log_entry list \<Rightarrow> index_t \<times> op_status \<Rightarrow> bool" where
  "stale entries w = (op_term (snd w) < entry_term (last entries))"

definition in_batch :: "log_entry list \<Rightarrow> index_t \<times> op_status \<Rightarrow> bool" where
  "in_batch entries w = (fst w \<le> idx (last entries))"

definition covered :: "index_t option \<Rightarrow> index_t \<times> 'a \<Rightarrow> bool" where
  "covered i w = (case i of Some up_to \<Rightarrow> fst w \<le> up_to | None \<Rightarrow> True)"

text \<open>The resolutions of one call of \<^verbatim>\<open>notify_waiters\<close>, and the waiters it leaves.\<close>

definition notify_effects :: "log_entry list \<Rightarrow> waiters \<Rightarrow> effect list" where
  "notify_effects entries ws =
     map (notify_one entries) (takeWhile (in_batch entries) ws) @
     map (fail_with dropped_entry) (takeWhile (stale entries) (dropWhile (in_batch entries) ws))"

definition notify_rest :: "log_entry list \<Rightarrow> waiters \<Rightarrow> waiters" where
  "notify_rest entries ws = dropWhile (stale entries) (dropWhile (in_batch entries) ws)"

text \<open>
  A committed batch as the FSM hands it over: not empty, with consecutive indexes.
\<close>

definition batch_inv :: "log_entry list \<Rightarrow> bool" where
  "batch_inv entries =
     (entries \<noteq> [] \<and> map idx entries = [idx (hd entries) ..< idx (hd entries) + length entries])"

fun is_resolution :: "effect \<Rightarrow> bool" where
  "is_resolution (resolve p r) = True"
| "is_resolution ev = False"

text \<open>The test of line 743.\<close>

definition snapshot_due :: "applier_env \<Rightarrow> server_impl \<Rightarrow> bool" where
  "snapshot_due env s =
     (log_last_snapshot_idx env \<le> applied_idx s \<and>
      snapshot_threshold (config s) \<le> applied_idx s - log_last_snapshot_idx env)"

text \<open>The suspension points of \<^verbatim>\<open>add_entry_internal\<close>, as opposed to its two ends.\<close>

definition suspended :: "add_entry_pc \<Rightarrow> bool" where
  "suspended a = (case a of awaiting_slot d w \<Rightarrow> True | awaiting_done p \<Rightarrow> True | _ \<Rightarrow> False)"

text \<open>A step of the I/O fiber that leaves the applied index as it is, thrown or not.\<close>

definition keeps_applied_idx :: "server_impl \<Rightarrow> (stop + server_impl) \<Rightarrow> bool" where
  "keeps_applied_idx s r =
     (case r of
        Inl (thrown e s') \<Rightarrow> applied_idx s' = applied_idx s
      | Inl (crashed f) \<Rightarrow> True
      | Inr s' \<Rightarrow> applied_idx s' = applied_idx s)"

section \<open>Concrete servers\<close>

text \<open>
  A server of a three-node cluster that has applied six entries, and answers of its
  collaborators, for the statements evaluated at a concrete input.
\<close>

definition example_config :: server_configuration where
  "example_config = \<lparr>append_request_threshold = 1, max_log_size = 10, snapshot_threshold = 5,
     snapshot_trailing = 2, enable_prevoting = True\<rparr>"

definition example_server :: server_impl where
  "example_server = \<lparr>config = example_config, applied_idx = 6, self_id = 1,
     stepdown_promise = None, leader_promise = None, reads = [], current_rpc_config = [1, 2, 3],
     awaited_indexes = [], awaited_commits = [], awaited_applies = [],
     snapshot_application_done = [], snapshot_transfers = [], aborted_snapshot_transfers = [],
     next_snapshot_transfer_id = 0, append_request_status = [],
     server_stats = zero_stats, next_promise = 20, effects = []\<rparr>"

definition example_env :: applier_env where
  "example_env = \<lparr>apply_throws = None, log_last_snapshot_idx = 6, log_last_conf_for = [1, 2, 3],
     take_snapshot_result = Inr 77, fsm_apply_snapshot_accepts = False, load_snapshot_throws = None\<rparr>"

text \<open>An iteration of the I/O fiber in which persistence fails to store the term and vote.\<close>

definition failing_io_env :: io_env where
  "failing_io_env =
     \<lparr>poll_output = Inr \<lparr>term_and_vote = Some (3, 2), snp = None, log_entries = [], messages = [],
                          configuration = None, committed = [], max_read_id_with_quorum = None,
                          abort_leadership_transfer = False\<rparr>,
      store_term_and_vote_throws = Some (other_exception ''disk failure''),
      store_snapshot_descriptor_throws = None, drop_snapshot_throws = None,
      push_snapshot_throws = None, truncate_log_throws = None, store_log_entries_throws = None,
      add_server_throws = None, send_throws = None, remove_server_throws = None,
      push_committed_throws = None,
      is_leader = True, current_leader = 1\<rparr>"

definition quiet_abort_env :: abort_env where
  "quiet_abort_env = \<lparr>rpc_abort_throws = None, sm_abort_throws = None,
     persistence_abort_throws = None, transfers_throw = None\<rparr>"

text \<open>
  A commit waiter and an apply waiter of the same index: both of the entry of index 7,
  and, in the second server, a commit waiter of term 6 and a stale apply waiter of
  term 4 at index 10.
\<close>

definition same_index_server :: server_impl where
  "same_index_server =
     example_server\<lparr>awaited_commits := [(7, \<lparr>op_term = 5, op_done = 1\<rparr>)],
                    awaited_applies := [(7, \<lparr>op_term = 5, op_done = 2\<rparr>)]\<rparr>"

definition stale_apply_server :: server_impl where
  "stale_apply_server =
     example_server\<lparr>awaited_commits := [(10, \<lparr>op_term = 6, op_done = 1\<rparr>)],
                    awaited_applies := [(10, \<lparr>op_term = 4, op_done = 2\<rparr>)]\<rparr>"

text \<open>A server with waiters on both sides of index 8.\<close>

definition waiting_server :: server_impl where
  "waiting_server =
     example_server\<lparr>awaited_commits := [(7, \<lparr>op_term = 2, op_done = 1\<rparr>), (9, \<lparr>op_term = 2, op_done = 2\<rparr>)],
                    awaited_applies := [(8, \<lparr>op_term = 2, op_done = 3\<rparr>)],
                    awaited_indexes := [(7, 4), (7, 5), (12, 6)]\<rparr>"

text \<open>
  The server the constructor builds for the example, what persistence loads when it
  starts (a snapshot at index 6 and a joint configuration), and the started server.
\<close>

definition constructed_server :: server_impl where
  "constructed_server = example_server\<lparr>applied_idx := 0, current_rpc_config := [], next_promise := 0\<rparr>"

definition example_start_env :: start_env where
  "example_start_env =
     \<lparr>load_term_and_vote_throws = None, load_snapshot_descriptor_throws = None,
      loaded_snapshot = \<lparr>snp_idx = 6, snp_term = 2, snp_config = [1, 2, 3], snp_id = 41\<rparr>,
      load_log_throws = None, log_configuration = ([1, 2], [2, 3]), log_stable_idx = 6,
      start_load_snapshot_throws = None, start_add_server_throws = None\<rparr>"

definition started_server :: server_impl where
  "started_server =
     example_server\<lparr>current_rpc_config := [3, 2, 1], next_promise := 0,
       effects := [load_term_and_vote, load_snapshot_descriptor, load_log, fsm_create,
                   sm_load_snapshot 41, rpc_add_server 1, rpc_add_server 2, rpc_add_server 3,
                   spawn_io_fiber 6, spawn_applier_fiber, register_metrics]\<rparr>"

section \<open>The loops of the waiter registry\<close>

text \<open>Each loop takes the longest prefix of the container that passes its test.\<close>

lemma drop_smaller_term_eq:
  "drop_smaller_term t ws =
     (dropWhile (\<lambda>w. op_term (snd w) < t) ws,
      map (\<lambda>w. resolve (op_done (snd w)) (set_exception dropped_entry)) (takeWhile (\<lambda>w. op_term (snd w) < t) ws))"
  by (induction ws) (auto split: prod.splits)

lemma drop_loop_eq:
  "drop_loop i ws =
     (dropWhile (\<lambda>w. case i of Some up_to \<Rightarrow> fst w \<le> up_to | None \<Rightarrow> True) ws,
      map (\<lambda>w. resolve (op_done (snd w)) (set_exception commit_status_unknown))
        (takeWhile (\<lambda>w. case i of Some up_to \<Rightarrow> fst w \<le> up_to | None \<Rightarrow> True) ws))"
  by (induction ws) (auto split: prod.splits option.splits)

lemma signal_loop_eq:
  "signal_loop a xs =
     (dropWhile (\<lambda>w. fst w \<le> a) xs, map (\<lambda>w. resolve (snd w) set_value) (takeWhile (\<lambda>w. fst w \<le> a) xs))"
  by (induction xs) (auto split: prod.splits)

lemma takeWhile_le_sorted:
  "sorted (map fst ws) \<Longrightarrow> takeWhile (\<lambda>w. fst w \<le> (m::nat)) ws = filter (\<lambda>w. fst w \<le> m) ws"
proof (induction ws)
  case Nil
  then show ?case by simp
next
  case (Cons w ws)
  show ?case
  proof (cases "fst w \<le> m")
    case True
    with Cons show ?thesis by simp
  next
    case False
    have "\<forall>x\<in>set ws. \<not> fst x \<le> m"
      using Cons.prems False by fastforce
    then have "filter (\<lambda>w. fst w \<le> m) ws = []"
      by (simp add: filter_empty_conv)
    with False show ?thesis by simp
  qed
qed

lemma dropWhile_le_sorted:
  "sorted (map fst ws) \<Longrightarrow> dropWhile (\<lambda>w. fst w \<le> (m::nat)) ws = filter (\<lambda>w. m < fst w) ws"
proof (induction ws)
  case Nil
  then show ?case by simp
next
  case (Cons w ws)
  show ?case
  proof (cases "fst w \<le> m")
    case True
    with Cons show ?thesis by simp
  next
    case False
    have "\<forall>x\<in>set ws. m < fst x"
      using Cons.prems False by fastforce
    then have "filter (\<lambda>w. m < fst w) ws = ws"
      by (simp add: filter_id_conv)
    with False show ?thesis by simp
  qed
qed

lemma map_inv_sorted: "map_inv ws \<Longrightarrow> sorted (map fst ws)"
  unfolding map_inv_def by (rule strict_sorted_imp_sorted)

lemma notify_committed_Inr:
  "notify_committed entries ws = Inr (ws', evs) \<Longrightarrow>
     ws' = dropWhile (in_batch entries) ws \<and> evs = map (notify_one entries) (takeWhile (in_batch entries) ws)"
  by (induction ws arbitrary: ws' evs)
     (auto simp: in_batch_def notify_one_def split: if_splits sum.splits prod.splits)

lemma notify_committed_total:
  assumes "\<forall>w\<in>set ws. in_batch entries w \<longrightarrow> idx (hd entries) \<le> fst w \<and> fst w - idx (hd entries) < length entries"
  shows "\<exists>r. notify_committed entries ws = Inr r"
  using assms by (induction ws) (auto simp: in_batch_def split: sum.splits)

lemma drop_smaller_term_eq':
  "drop_smaller_term (entry_term (last entries)) ws =
     (dropWhile (stale entries) ws, map (fail_with dropped_entry) (takeWhile (stale entries) ws))"
  by (simp add: drop_smaller_term_eq stale_def[abs_def] fail_with_def[abs_def])

lemma drop_loop_eq':
  "drop_loop i ws = (dropWhile (covered i) ws, map (fail_with commit_status_unknown) (takeWhile (covered i) ws))"
  by (simp add: drop_loop_eq covered_def[abs_def] fail_with_def[abs_def])

lemmas helper_defs = emit_def count_waiters_awaken_def count_waiters_dropped_def
  count_applied_entries_def count_snapshots_taken_def count_sm_load_snapshot_def
  count_add_config_def count_add_command_def fresh_promise_def container_def set_container_def

lemma notify_waiters_Inr:
  assumes "notify_waiters w entries s = Inr s'"
  shows "s' = count_waiters_awaken (length (notify_effects entries (container w s)))
                (emit (notify_effects entries (container w s))
                   (set_container w (notify_rest entries (container w s)) s))"
  using assms
  by (auto simp: notify_waiters_def drop_smaller_term_eq' notify_effects_def notify_rest_def
      split: if_splits sum.splits prod.splits dest!: notify_committed_Inr)

lemma notify_waiters_effects:
  "notify_waiters w entries s = Inr s' \<Longrightarrow> effects s' = effects s @ notify_effects entries (container w s)"
  by (cases w) (auto dest!: notify_waiters_Inr simp: helper_defs)

lemma notify_waiters_container:
  "notify_waiters w entries s = Inr s' \<Longrightarrow> container w s' = notify_rest entries (container w s)"
  by (cases w) (auto dest!: notify_waiters_Inr simp: helper_defs)

lemma notify_waiters_other:
  "notify_waiters wait_committed entries s = Inr s' \<Longrightarrow> awaited_applies s' = awaited_applies s"
  "notify_waiters wait_applied entries s = Inr s' \<Longrightarrow> awaited_commits s' = awaited_commits s"
  "notify_waiters w entries s = Inr s' \<Longrightarrow> awaited_indexes s' = awaited_indexes s"
  "notify_waiters w entries s = Inr s' \<Longrightarrow> config s' = config s"
  by (cases w; auto dest!: notify_waiters_Inr simp: helper_defs)+

lemma drop_in_effects:
  "effects (drop_in w i s) = effects s @ map (fail_with commit_status_unknown) (takeWhile (covered i) (container w s))"
  by (cases w) (auto simp: drop_in_def drop_loop_eq' helper_defs)

lemma drop_in_container:
  "container w (drop_in w i s) = dropWhile (covered i) (container w s)"
  by (cases w) (auto simp: drop_in_def drop_loop_eq' helper_defs)

lemma drop_in_other:
  "awaited_applies (drop_in wait_committed i s) = awaited_applies s"
  "awaited_commits (drop_in wait_applied i s) = awaited_commits s"
  "awaited_indexes (drop_in w i s) = awaited_indexes s"
  "config (drop_in w i s) = config s"
  by (cases w; auto simp: drop_in_def drop_loop_eq' helper_defs)+

lemma signal_applied_effects:
  "effects (signal_applied s) =
     effects s @ map (\<lambda>w. resolve (snd w) set_value) (takeWhile (\<lambda>w. fst w \<le> applied_idx s) (awaited_indexes s))"
  by (simp add: signal_applied_def signal_loop_eq emit_def)

lemma signal_applied_fields:
  "awaited_indexes (signal_applied s) = dropWhile (\<lambda>w. fst w \<le> applied_idx s) (awaited_indexes s)"
  "awaited_commits (signal_applied s) = awaited_commits s"
  "awaited_applies (signal_applied s) = awaited_applies s"
  "config (signal_applied s) = config s"
  by (simp_all add: signal_applied_def signal_loop_eq emit_def)

lemma covered_Some: "covered (Some m) = (\<lambda>w. fst w \<le> m)"
  by (simp add: covered_def[abs_def])

lemma drop_waiters_fields:
  "effects (drop_waiters i s) =
     effects s @ map (fail_with commit_status_unknown) (takeWhile (covered i) (awaited_commits s))
       @ map (fail_with commit_status_unknown) (takeWhile (covered i) (awaited_applies s))"
  "awaited_commits (drop_waiters i s) = dropWhile (covered i) (awaited_commits s)"
  "awaited_applies (drop_waiters i s) = dropWhile (covered i) (awaited_applies s)"
  "awaited_indexes (drop_waiters i s) = awaited_indexes s"
  "config (drop_waiters i s) = config s"
  using drop_in_effects[of wait_applied i "drop_in wait_committed i s"]
        drop_in_effects[of wait_committed i s]
        drop_in_container[of wait_applied i "drop_in wait_committed i s"]
        drop_in_container[of wait_committed i s]
  by (simp_all add: drop_waiters_def drop_in_other container_def)

section \<open>What changes the applied index\<close>

lemma notify_waiters_applied_idx:
  "notify_waiters w entries s = Inr s' \<Longrightarrow> applied_idx s' = applied_idx s"
  by (cases w) (auto simp: notify_waiters_def helper_defs split: if_splits sum.splits prod.splits)

lemma drop_in_applied_idx: "applied_idx (drop_in w i s) = applied_idx s"
  by (cases w) (auto simp: drop_in_def helper_defs split: prod.splits)

lemma drop_waiters_applied_idx: "applied_idx (drop_waiters i s) = applied_idx s"
  by (simp add: drop_waiters_def drop_in_applied_idx)

lemma signal_applied_applied_idx: "applied_idx (signal_applied s) = applied_idx s"
  by (auto simp: signal_applied_def helper_defs split: prod.splits)

lemma take_local_snapshot_applied_idx:
  "take_local_snapshot env t s = (r, s') \<Longrightarrow> applied_idx s' = applied_idx s"
  by (auto simp: take_local_snapshot_def helper_defs Let_def split: if_splits sum.splits)

lemma apply_batch_applied_idx:
  assumes "apply_batch env batch s = Inr (r, s')"
  shows "applied_idx s \<le> applied_idx s'"
    and "r = None \<Longrightarrow> applied_idx s' = idx (last batch)"
    and "r = None \<Longrightarrow> idx (last batch) = applied_idx s + length batch"
  using assms
  by (auto simp: apply_batch_def Let_def helper_defs split: sum.splits if_splits prod.splits
      dest!: notify_waiters_applied_idx take_local_snapshot_applied_idx)

lemma apply_snapshot_item_applied_idx:
  assumes "apply_snapshot_item env snap s = Inr (r, s')"
  shows "applied_idx s \<le> applied_idx s'"
    and "applied_idx s \<le> snp_idx snap"
    and "r = None \<Longrightarrow> applied_idx s' = snp_idx snap"
  using assms
  by (auto simp: apply_snapshot_item_def Let_def helper_defs drop_waiters_applied_idx
      split: if_splits option.splits)

lemma applier_iteration_applied_idx:
  assumes "applier_iteration env v s = Inr (r, s')"
  shows "applied_idx s \<le> applied_idx s'"
proof (cases v)
  case (entries_item batch)
  with assms show ?thesis
    by (auto simp: applier_iteration_def signal_applied_applied_idx
        split: if_splits sum.splits option.splits prod.splits dest: apply_batch_applied_idx(1))
next
  case (snapshot_item snap)
  with assms show ?thesis
    by (auto simp: applier_iteration_def signal_applied_applied_idx
        split: if_splits sum.splits option.splits prod.splits dest: apply_snapshot_item_applied_idx(1))
qed

lemma counted_applied_idx: "applied_idx (counted f s) = applied_idx s"
  by (simp add: counted_def)

lemma call_applied_idx:
  "call ef th s = Inl (thrown e s') \<Longrightarrow> applied_idx s' = applied_idx s"
  "call ef th s = Inr s' \<Longrightarrow> applied_idx s' = applied_idx s"
  by (auto simp: call_def helper_defs split: option.splits)

lemma keeps_call: "keeps_applied_idx s (call ef th s)"
  by (auto simp: keeps_applied_idx_def call_def helper_defs split: option.splits)

lemma keeps_and_then:
  assumes m: "keeps_applied_idx s m"
    and f: "\<And>s1. applied_idx s1 = applied_idx s \<Longrightarrow> keeps_applied_idx s1 (f s1)"
  shows "keeps_applied_idx s (and_then m f)"
proof (cases m)
  case (Inl a)
  with m show ?thesis by (simp add: and_then_def keeps_applied_idx_def)
next
  case (Inr s1)
  with m have eq: "applied_idx s1 = applied_idx s" by (simp add: keeps_applied_idx_def)
  from f[OF eq] eq have "keeps_applied_idx s (f s1)"
    by (auto simp: keeps_applied_idx_def split: sum.splits stop.splits)
  with Inr show ?thesis by (simp add: and_then_def)
qed

lemma keeps_Inr: "applied_idx s' = applied_idx s \<Longrightarrow> keeps_applied_idx s (Inr s')"
  by (simp add: keeps_applied_idx_def)

lemma keeps_cong: "applied_idx s1 = applied_idx s \<Longrightarrow> keeps_applied_idx s1 r \<Longrightarrow> keeps_applied_idx s r"
  by (auto simp: keeps_applied_idx_def split: sum.splits stop.splits)

lemma keeps_persist_term_and_vote: "keeps_applied_idx s (persist_term_and_vote env batch s)"
  by (auto simp: persist_term_and_vote_def keeps_call keeps_Inr counted_applied_idx
      split: option.splits intro!: keeps_and_then)

lemma keeps_persist_snapshot: "keeps_applied_idx s (persist_snapshot env batch s)"
proof (cases "snp batch")
  case None
  then show ?thesis by (simp add: persist_snapshot_def keeps_Inr)
next
  case (Some a)
  obtain snap is_local old_id where a: "a = (snap, is_local, old_id)" by (cases a)
  have drop: "\<And>s1. applied_idx s1 = applied_idx s \<Longrightarrow>
      keeps_applied_idx s1 (call (sm_drop_snapshot old_id) (drop_snapshot_throws env)
         (counted (store_snapshot_count_update (\<lambda>n. n + 1)) s1))"
    by (rule keeps_cong[OF _ keeps_call]) (simp add: counted_applied_idx)
  show ?thesis
    unfolding persist_snapshot_def Some a option.case prod.case
    by (intro keeps_and_then keeps_call drop) (auto simp: keeps_call keeps_Inr)
qed

lemma keeps_add_joining: "keeps_applied_idx s (add_joining th js s)"
proof (induction js arbitrary: s)
  case Nil
  then show ?case by (simp add: keeps_Inr)
next
  case (Cons a js)
  have "keeps_applied_idx (add_to_rpc_config a s) (call (rpc_add_server a) th (add_to_rpc_config a s))"
    by (rule keeps_call)
  then have "keeps_applied_idx s (call (rpc_add_server a) th (add_to_rpc_config a s))"
    by (rule keeps_cong[rotated]) (simp add: add_to_rpc_config_def)
  then show ?case
    by (auto intro!: keeps_and_then Cons.IH)
qed

lemma abort_snapshot_transfer_applied_idx: "applied_idx (abort_snapshot_transfer dst s) = applied_idx s"
  by (simp add: abort_snapshot_transfer_def emit_def split: option.splits)

lemma abort_snapshot_transfers_applied_idx: "applied_idx (abort_snapshot_transfers s) = applied_idx s"
  by (simp add: abort_snapshot_transfers_def emit_def)

lemma keeps_remove_leaving: "keeps_applied_idx s (remove_leaving th js s)"
proof (induction js arbitrary: s)
  case Nil
  then show ?case by (simp add: keeps_Inr)
next
  case (Cons a js)
  let ?s = "remove_from_rpc_config a (abort_snapshot_transfer a s)"
  have "keeps_applied_idx ?s (call (rpc_remove_server a) th ?s)"
    by (rule keeps_call)
  then have "keeps_applied_idx s (call (rpc_remove_server a) th ?s)"
    by (rule keeps_cong[rotated])
       (simp add: remove_from_rpc_config_def abort_snapshot_transfer_applied_idx)
  then show ?case
    by (auto intro!: keeps_and_then Cons.IH)
qed

lemma send_snapshot_applied_idx:
  "send_snapshot dst snap s = Inr s' \<Longrightarrow> applied_idx s' = applied_idx s"
  by (auto simp: send_snapshot_def Let_def emit_def split: if_splits)

lemma keeps_send_message: "keeps_applied_idx s (send_message th dst m s)"
proof (cases m)
  case append_request
  then show ?thesis
    by (simp add: send_message_def Let_def keeps_applied_idx_def emit_def counted_def)
next
  case (install_snapshot snap)
  then show ?thesis
    by (auto simp: send_message_def keeps_applied_idx_def counted_applied_idx
        split: sum.splits dest!: send_snapshot_applied_idx)
next
  case (snapshot_reply t success)
  then show ?thesis
    by (auto simp: send_message_def Let_def keeps_applied_idx_def emit_def counted_def
        split: option.splits)
qed (auto simp: send_message_def send_to_def counted_applied_idx intro!: keeps_cong[OF _ keeps_call])

lemma keeps_send_messages: "keeps_applied_idx s (send_messages th ms s)"
proof (induction ms arbitrary: s)
  case Nil
  then show ?case by (simp add: keeps_Inr)
next
  case (Cons m ms)
  show ?case
  proof (cases "send_message th (fst m) (snd m) s")
    case (Inl a)
    show ?thesis
    proof (cases a)
      case (thrown e s1)
      with Inl keeps_send_message[of s th "fst m" "snd m"]
      have "applied_idx (emit [log_debug e] s1) = applied_idx s"
        by (simp add: keeps_applied_idx_def emit_def)
      from keeps_cong[OF this Cons.IH] Inl thrown show ?thesis by simp
    next
      case (crashed f)
      with Inl show ?thesis by (simp add: keeps_applied_idx_def)
    qed
  next
    case (Inr s1)
    with keeps_send_message[of s th "fst m" "snd m"]
    have "applied_idx s1 = applied_idx s" by (simp add: keeps_applied_idx_def)
    from keeps_cong[OF this Cons.IH] Inr show ?thesis by simp
  qed
qed

lemma keeps_dispatch: "keeps_applied_idx s (dispatch env batch s)"
  unfolding dispatch_def Let_def
  by (intro keeps_and_then keeps_add_joining keeps_send_messages keeps_remove_leaving)

lemma keeps_queue_committed: "keeps_applied_idx s (queue_committed env batch s)"
  by (auto simp: queue_committed_def keeps_Inr counted_applied_idx intro!: keeps_cong[OF _ keeps_call])

lemma confirm_reads_applied_idx: "applied_idx (confirm_reads batch s) = applied_idx s"
  by (auto simp: confirm_reads_def emit_def split: option.splits prod.splits)

lemma leadership_applied_idx: "applied_idx (leadership env batch s) = applied_idx s"
  by (auto simp: leadership_def Let_def emit_def drop_waiters_applied_idx
      abort_snapshot_transfers_applied_idx split: option.splits)

lemma persist_log_entries_applied_idx:
  "persist_log_entries env batch l s = Inl (thrown e s') \<Longrightarrow> applied_idx s' = applied_idx s"
  "persist_log_entries env batch l s = Inr (l', s') \<Longrightarrow> applied_idx s' = applied_idx s"
  by (auto simp: persist_log_entries_def Let_def and_then_def call_def emit_def counted_def
      split: if_splits sum.splits option.splits)

lemma io_iteration_applied_idx:
  "io_iteration env l s = Inl (thrown e s') \<Longrightarrow> applied_idx s' = applied_idx s"
  "io_iteration env l s = Inr (l', s') \<Longrightarrow> applied_idx s' = applied_idx s"
proof -
  have *: "case io_iteration env l s of Inl (thrown e s') \<Rightarrow> applied_idx s' = applied_idx s
           | Inl (crashed f) \<Rightarrow> True
           | Inr (l', s') \<Rightarrow> applied_idx s' = applied_idx s"
  proof (cases "poll_output env")
    case (Inl a)
    then show ?thesis by (simp add: io_iteration_def)
  next
    case (Inr batch)
    let ?s0 = "counted (polls_update (\<lambda>n. n + 1)) s"
    have e0: "applied_idx ?s0 = applied_idx s" by (rule counted_applied_idx)
    show ?thesis
    proof (cases "persist_term_and_vote env batch ?s0")
      case (Inl a)
      with keeps_persist_term_and_vote[of ?s0 env batch] Inr e0 show ?thesis
        by (auto simp: io_iteration_def and_then_def keeps_applied_idx_def split: stop.splits)
    next
      case s1: (Inr s1)
      with keeps_persist_term_and_vote[of ?s0 env batch] e0
      have e1: "applied_idx s1 = applied_idx s" by (simp add: keeps_applied_idx_def)
      show ?thesis
      proof (cases "persist_snapshot env batch s1")
        case (Inl a)
        with keeps_persist_snapshot[of s1 env batch] Inr s1 e1 show ?thesis
          by (auto simp: io_iteration_def and_then_def keeps_applied_idx_def split: stop.splits)
      next
        case s2: (Inr s2)
        with keeps_persist_snapshot[of s1 env batch] e1
        have e2: "applied_idx s2 = applied_idx s" by (simp add: keeps_applied_idx_def)
        show ?thesis
        proof (cases "persist_log_entries env batch l s2")
          case (Inl a)
          with persist_log_entries_applied_idx(1)[of env batch l s2] Inr s1 s2 e2 show ?thesis
            by (cases a) (auto simp: io_iteration_def and_then_def)
        next
          case ls3: (Inr ls3)
          obtain l3 s3 where ls3': "ls3 = (l3, s3)" by (cases ls3)
          with ls3 persist_log_entries_applied_idx(2)[of env batch l s2 l3 s3] e2
          have e3: "applied_idx s3 = applied_idx s" by simp
          show ?thesis
          proof (cases "dispatch env batch s3")
            case (Inl a)
            with keeps_dispatch[of s3 env batch] Inr s1 s2 ls3 ls3' e3 show ?thesis
              by (auto simp: io_iteration_def and_then_def keeps_applied_idx_def split: stop.splits)
          next
            case s4: (Inr s4)
            with keeps_dispatch[of s3 env batch] e3
            have e4: "applied_idx s4 = applied_idx s" by (simp add: keeps_applied_idx_def)
            show ?thesis
            proof (cases "queue_committed env batch s4")
              case (Inl a)
              with keeps_queue_committed[of s4 env batch] Inr s1 s2 ls3 ls3' s4 e4 show ?thesis
                by (auto simp: io_iteration_def and_then_def keeps_applied_idx_def split: stop.splits)
            next
              case s5: (Inr s5)
              with keeps_queue_committed[of s4 env batch] e4
              have e5: "applied_idx s5 = applied_idx s" by (simp add: keeps_applied_idx_def)
              with Inr s1 s2 ls3 ls3' s4 s5 show ?thesis
                by (simp add: io_iteration_def and_then_def leadership_applied_idx confirm_reads_applied_idx)
            qed
          qed
        qed
      qed
    qed
  qed
  show "io_iteration env l s = Inl (thrown e s') \<Longrightarrow> applied_idx s' = applied_idx s"
    using * by simp
  show "io_iteration env l s = Inr (l', s') \<Longrightarrow> applied_idx s' = applied_idx s"
    using * by simp
qed

lemma add_entry_internal_resume_applied_idx:
  "add_entry_internal_resume ev pc s = Inr (pc', s') \<Longrightarrow> applied_idx s' = applied_idx s"
  by (auto simp: add_entry_internal_resume_def helper_defs
      split: add_entry_pc.splits resume_event.splits sum.splits prod.splits if_splits
             outcome.splits wait_type.splits)

lemma set_configuration_applied_idx:
  "applied_idx (snd (set_configuration d c s)) = applied_idx s"
  by (auto simp: set_configuration_def helper_defs split: prod.splits)

lemma set_configuration_resume_applied_idx:
  "set_configuration_resume ev pc s = Inr (pc', s') \<Longrightarrow> applied_idx s' = applied_idx s"
  by (auto simp: set_configuration_resume_def
      split: set_configuration_pc.splits sum.splits prod.splits add_entry_pc.splits
      dest: add_entry_internal_resume_applied_idx)

lemma wait_for_apply_applied_idx: "applied_idx (snd (wait_for_apply i s)) = applied_idx s"
  by (auto simp: wait_for_apply_def helper_defs split: prod.splits)

lemma wait_for_leader_applied_idx: "applied_idx (snd (wait_for_leader s)) = applied_idx s"
  by (auto simp: wait_for_leader_def helper_defs split: prod.splits option.splits)

lemma execute_read_barrier_applied_idx:
  "execute_read_barrier sender answer s = Inl (e, s') \<Longrightarrow> applied_idx s' = applied_idx s"
  "execute_read_barrier sender answer s = Inr (f, s') \<Longrightarrow> applied_idx s' = applied_idx s"
  by (auto simp: execute_read_barrier_def Let_def helper_defs
      split: sum.splits option.splits exn.splits prod.splits)

lemma get_read_idx_applied_idx:
  "get_read_idx leader answer s = Inl (e, s') \<Longrightarrow> applied_idx s' = applied_idx s"
  "get_read_idx leader answer s = Inr (f, s') \<Longrightarrow> applied_idx s' = applied_idx s"
  by (auto simp: get_read_idx_def emit_def split: if_splits dest: execute_read_barrier_applied_idx)

lemma read_barrier_reply_received_applied_idx:
  "applied_idx (snd (read_barrier_reply_received res leader applied s)) = applied_idx s"
  using wait_for_apply_applied_idx[of "applied + 1" s]
  by (auto simp: read_barrier_reply_received_def split: read_barrier_reply.splits prod.splits future.splits)

lemma read_barrier_iteration_applied_idx:
  "applied_idx (snd (read_barrier_iteration l r answer s)) = applied_idx s"
proof (cases "r = 0")
  case False
  with wait_for_apply_applied_idx[of r s] show ?thesis
    by (auto simp: read_barrier_iteration_def split: prod.splits future.splits)
next
  case r: True
  show ?thesis
  proof (cases "l = 0")
    case True
    with r wait_for_leader_applied_idx[of s] show ?thesis
      by (auto simp: read_barrier_iteration_def split: prod.splits)
  next
    case False
    show ?thesis
    proof (cases "get_read_idx l answer s")
      case (Inl a)
      with r False get_read_idx_applied_idx(1)[of l answer s "fst a" "snd a"] show ?thesis
        by (cases a) (auto simp: read_barrier_iteration_def Let_def)
    next
      case (Inr b)
      obtain f s1 where b: "b = (f, s1)" by (cases b)
      from Inr b have e: "applied_idx s1 = applied_idx s"
        by (auto dest: get_read_idx_applied_idx(2))
      with r False Inr b read_barrier_reply_received_applied_idx[of _ l "applied_idx s" s1]
      show ?thesis
        by (cases f) (auto simp: read_barrier_iteration_def Let_def)
    qed
  qed
qed

lemma read_barrier_resume_applied_idx: "applied_idx (snd (read_barrier_resume ev pc s)) = applied_idx s"
  by (auto simp: read_barrier_resume_def read_barrier_iteration_applied_idx
      read_barrier_reply_received_applied_idx
      split: read_barrier_pc.splits read_barrier_event.splits outcome.splits sum.splits)

lemma apply_snapshot_applied_idx:
  "apply_snapshot sender snap t s = Inr (pc, s') \<Longrightarrow> applied_idx s' = applied_idx s"
  by (auto simp: apply_snapshot_def Let_def helper_defs split: if_splits)

lemma apply_snapshot_resume_applied_idx:
  "applied_idx (snd (apply_snapshot_resume ev pc s)) = applied_idx s"
  by (auto simp: apply_snapshot_resume_def drop_failed_snapshot_def emit_def
      split: apply_snapshot_pc.splits apply_snapshot_event.splits sum.splits option.splits)

lemma snapshot_transfer_done_applied_idx:
  "applied_idx (snapshot_transfer_done dst tid result t s) = applied_idx s"
  by (auto simp: snapshot_transfer_done_def Let_def emit_def split: sum.splits)

lemma append_request_sent_applied_idx: "applied_idx (append_request_sent th dst s) = applied_idx s"
  by (simp add: append_request_sent_def Let_def emit_def)

lemma stepdown_applied_idx: "applied_idx (snd (stepdown t th s)) = applied_idx s"
  by (auto simp: stepdown_def Let_def helper_defs split: option.splits prod.splits)

lemma abort_applied_idx: "applied_idx (snd (abort env a b s)) = applied_idx s"
  by (auto simp: abort_def Let_def emit_def abort_snapshot_transfers_applied_idx
      split: outcome.splits option.splits)

lemma add_entry_applied_idx: "applied_idx (snd (add_entry c w s)) = applied_idx s"
  by (simp add: add_entry_def count_add_command_def)

lemmas rpc_server_defs = append_entries_def append_entries_reply_def request_vote_def
  request_vote_reply_def timeout_now_request_def read_quorum_request_def
  read_quorum_reply_request_def

lemma server_step_applied_idx:
  assumes "server_step operation s = Inr s'"
  shows "applied_idx s \<le> applied_idx s'"
proof (cases operation)
  case (applier_op env v)
  with assms show ?thesis
    by (auto simp: server_step_def map_sum_def split: sum.splits dest: applier_iteration_applied_idx)
next
  case (io_op env l)
  with assms show ?thesis
    by (auto simp: server_step_def split: sum.splits prod.splits stop.splits
        dest: io_iteration_applied_idx)
next
  case (add_entry_op c w)
  with assms show ?thesis by (auto simp: server_step_def add_entry_applied_idx)
next
  case (add_entry_resume_op ev pc)
  with assms show ?thesis
    by (auto simp: server_step_def map_sum_def split: sum.splits dest: add_entry_internal_resume_applied_idx)
next
  case (set_configuration_op d c)
  with assms show ?thesis by (auto simp: server_step_def set_configuration_applied_idx)
next
  case (set_configuration_resume_op ev pc)
  with assms show ?thesis
    by (auto simp: server_step_def map_sum_def split: sum.splits dest: set_configuration_resume_applied_idx)
next
  case (read_barrier_op l)
  with assms show ?thesis by (auto simp: server_step_def read_barrier_def)
next
  case (read_barrier_resume_op ev pc)
  with assms show ?thesis by (auto simp: server_step_def read_barrier_resume_applied_idx)
next
  case (execute_read_barrier_op sender answer)
  with assms show ?thesis
    by (auto simp: server_step_def split: sum.splits prod.splits dest: execute_read_barrier_applied_idx)
next
  case (apply_snapshot_op sender snap t)
  with assms show ?thesis
    by (auto simp: server_step_def map_sum_def split: sum.splits dest: apply_snapshot_applied_idx)
next
  case (apply_snapshot_resume_op ev pc)
  with assms show ?thesis by (auto simp: server_step_def apply_snapshot_resume_applied_idx)
next
  case (snapshot_transfer_done_op dst tid result t)
  with assms show ?thesis by (auto simp: server_step_def snapshot_transfer_done_applied_idx)
next
  case (append_request_sent_op th dst)
  with assms show ?thesis by (auto simp: server_step_def append_request_sent_applied_idx)
next
  case (stepdown_op t th)
  with assms show ?thesis by (auto simp: server_step_def stepdown_applied_idx)
next
  case (abort_op env a b)
  with assms show ?thesis by (auto simp: server_step_def abort_applied_idx)
qed (use assms in \<open>auto simp: server_step_def rpc_server_defs emit_def counted_def\<close>)

lemma run_ops_applied_idx:
  "run_ops ops s = Inr s' \<Longrightarrow> applied_idx s \<le> applied_idx s'"
proof (induction ops arbitrary: s)
  case Nil
  then show ?case by simp
next
  case (Cons operation ops)
  then show ?case
    by (auto split: sum.splits dest!: server_step_applied_idx Cons.IH)
qed

lemma applied_after_sorted: "sorted (applied_idx s # applied_after ops s)"
proof (induction ops arbitrary: s)
  case Nil
  then show ?case by simp
next
  case (Cons operation ops)
  show ?case
  proof (cases "server_step operation s")
    case (Inl f)
    then show ?thesis by simp
  next
    case (Inr s')
    from server_step_applied_idx[OF Inr] Cons.IH[of s'] Inr show ?thesis
      by (auto simp: order.trans)
  qed
qed

section \<open>The effects of one applier iteration\<close>

lemma notify_effects_resolutions: "list_all is_resolution (notify_effects entries ws)"
  by (auto simp: notify_effects_def list_all_iff notify_one_def fail_with_def)

lemma take_local_snapshot_effects:
  assumes "take_local_snapshot env t s = (r, s')"
  shows "effects s' = effects s @
           (if snapshot_due env s
            then sm_take_snapshot #
                 (case take_snapshot_result env of
                    Inl e \<Rightarrow> []
                  | Inr new_id \<Rightarrow>
                      fsm_apply_snapshot \<lparr>snp_idx = applied_idx s, snp_term = t,
                          snp_config = log_last_conf_for env, snp_id = new_id\<rparr>
                        (snapshot_trailing (config s)) True
                      # (if fsm_apply_snapshot_accepts env then [] else [sm_drop_snapshot new_id]))
            else [])"
  using assms
  by (auto simp: take_local_snapshot_def snapshot_due_def Let_def helper_defs split: if_splits sum.splits)

lemma take_local_snapshot_fields:
  assumes "take_local_snapshot env t s = (r, s')"
  shows "awaited_commits s' = awaited_commits s" "awaited_applies s' = awaited_applies s"
    "awaited_indexes s' = awaited_indexes s" "config s' = config s"
  using assms
  by (auto simp: take_local_snapshot_def Let_def helper_defs split: if_splits sum.splits)

lemma apply_batch_cases:
  assumes "apply_batch env batch s = Inr (r, s')"
  obtains (threw) s1 where "notify_waiters wait_committed batch s = Inr s1"
      "commands_of batch \<noteq> []" "apply_throws env \<noteq> None" "r = apply_throws env"
      "s' = emit [sm_apply (commands_of batch)] s1"
  | (applied) s1 s3 s4 where "notify_waiters wait_committed batch s = Inr s1"
      "commands_of batch = [] \<or> apply_throws env = None"
      "idx (last batch) = applied_idx s + length batch"
      "s3 = (if commands_of batch \<noteq> []
             then count_applied_entries (length (commands_of batch)) (emit [sm_apply (commands_of batch)] s1)
             else s1)\<lparr>applied_idx := idx (last batch)\<rparr>"
      "notify_waiters wait_applied batch s3 = Inr s4"
      "take_local_snapshot env (entry_term (last batch)) s4 = (r, s')"
  using assms
  by (auto simp: apply_batch_def Let_def split: sum.splits if_splits dest: notify_waiters_applied_idx)

lemma not_resolution_notin:
  "list_all is_resolution evs \<Longrightarrow> \<not> is_resolution e \<Longrightarrow> e \<notin> set evs"
  by (auto simp: list_all_iff)

lemma applier_batch_effects:
  assumes it: "applier_iteration env (entries_item batch) s = Inr (r, s')"
    and ne: "batch \<noteq> []"
    and ap: "commands_of batch = [] \<or> apply_throws env = None"
  obtains s4 pre post where
    "applied_idx s4 = idx (last batch)" "config s4 = config s"
    "applied_idx s' = idx (last batch)"
    "list_all (\<lambda>e. is_resolution e \<or> e = sm_apply (commands_of batch)) pre"
    "list_all is_resolution post"
    "new_effects s s' = pre @
       (if snapshot_due env s4
        then sm_take_snapshot #
             (case take_snapshot_result env of
                Inl e \<Rightarrow> []
              | Inr new_id \<Rightarrow>
                  fsm_apply_snapshot \<lparr>snp_idx = applied_idx s4, snp_term = entry_term (last batch),
                      snp_config = log_last_conf_for env, snp_id = new_id\<rparr>
                    (snapshot_trailing (config s4)) True
                  # (if fsm_apply_snapshot_accepts env then [] else [sm_drop_snapshot new_id]))
        else []) @ post"
proof -
  from it ne obtain s'' where ab: "apply_batch env batch s = Inr (r, s'')"
    and s': "s' = (if r = None then signal_applied s'' else s'')"
    by (auto simp: applier_iteration_def split: sum.splits option.splits prod.splits)
  from ab show ?thesis
  proof (cases rule: apply_batch_cases)
    case (threw s1)
    with ap show ?thesis by simp
  next
    case (applied s1 s3 s4)
    let ?ap = "if commands_of batch \<noteq> [] then [sm_apply (commands_of batch)] else []"
    have e1: "effects s1 = effects s @ notify_effects batch (awaited_commits s)"
      using notify_waiters_effects[OF applied(1)] by (simp add: container_def)
    have e3: "effects s3 = effects s1 @ ?ap"
      by (simp add: applied(4) helper_defs)
    have e4: "effects s4 = effects s3 @ notify_effects batch (awaited_applies s3)"
      using notify_waiters_effects[OF applied(5)] by (simp add: container_def)
    have a4: "applied_idx s4 = idx (last batch)"
      using notify_waiters_applied_idx[OF applied(5)] by (simp add: applied(4))
    have c4: "config s4 = config s"
      using notify_waiters_other(4)[OF applied(5)] notify_waiters_other(4)[OF applied(1)]
      by (simp add: applied(4) helper_defs)
    note e5 = take_local_snapshot_effects[OF applied(6)]
    have a5: "applied_idx s'' = idx (last batch)"
      using take_local_snapshot_applied_idx[OF applied(6)] a4 by simp
    let ?pre = "notify_effects batch (awaited_commits s) @ ?ap @ notify_effects batch (awaited_applies s3)"
    let ?post = "if r = None then map (\<lambda>w. resolve (snd w) set_value)
                    (takeWhile (\<lambda>w. fst w \<le> applied_idx s'') (awaited_indexes s'')) else []"
    have "effects s' = effects s'' @ ?post"
      by (simp add: s' signal_applied_effects)
    then have ne: "new_effects s s' = ?pre @ drop (length (effects s4)) (effects s'') @ ?post"
      using e5 by (simp add: new_effects_def e1 e3 e4)
    have p1: "list_all (\<lambda>e. is_resolution e \<or> e = sm_apply (commands_of batch)) ?pre"
      using notify_effects_resolutions[of batch "awaited_commits s"]
            notify_effects_resolutions[of batch "awaited_applies s3"]
      by (auto simp: list_all_iff)
    have p2: "list_all is_resolution ?post"
      by (auto simp: list_all_iff)
    have a': "applied_idx s' = idx (last batch)"
      by (simp add: s' signal_applied_applied_idx a5)
    show ?thesis
      by (rule that[of s4 ?pre ?post]) (use a4 c4 a' p1 p2 ne e5 in simp_all)
  qed
qed

section \<open>The order of resolutions\<close>

lemma is_resolved_iff: "is_resolved p evs = (\<exists>r. resolve p r \<in> set evs)"
proof (induction evs)
  case Nil
  then show ?case by (simp add: is_resolved_def)
next
  case (Cons e evs)
  then show ?case by (cases e) (auto simp: is_resolved_def)
qed

lemma resolution_pos_less: "resolution_pos p evs = Some i \<Longrightarrow> i < length evs"
proof (induction evs arbitrary: i)
  case Nil
  then show ?case by simp
next
  case (Cons e evs)
  then show ?case by (cases e) (auto split: if_splits)
qed

lemma resolution_pos_append_Some:
  "resolution_pos p xs = Some i \<Longrightarrow> resolution_pos p (xs @ ys) = Some i"
proof (induction xs arbitrary: i)
  case Nil
  then show ?case by simp
next
  case (Cons e xs)
  then show ?case by (cases e) (auto split: if_splits)
qed

lemma resolution_pos_append_None:
  "resolution_pos p xs = None \<Longrightarrow> resolution_pos p (xs @ ys) = Some j \<Longrightarrow> length xs \<le> j"
proof (induction xs arbitrary: j)
  case Nil
  then show ?case by simp
next
  case (Cons e xs)
  then show ?case by (cases e) (auto split: if_splits)
qed

lemma resolved_before_append:
  assumes "is_resolved p xs" and "\<not> is_resolved q xs"
  shows "resolved_before (xs @ ys) p q"
proof -
  from assms(1) obtain i where i: "resolution_pos p xs = Some i"
    by (auto simp: is_resolved_def)
  from assms(2) have q: "resolution_pos q xs = None"
    by (simp add: is_resolved_def)
  from i have il: "i < length xs" by (rule resolution_pos_less)
  show ?thesis
  proof (cases "resolution_pos q (xs @ ys)")
    case None
    then show ?thesis by (simp add: resolved_before_def)
  next
    case (Some j)
    with q have "length xs \<le> j" by (rule resolution_pos_append_None)
    with il Some resolution_pos_append_Some[OF i, of ys] show ?thesis
      by (simp add: resolved_before_def)
  qed
qed

lemma is_resolved_append: "is_resolved p (xs @ ys) = (is_resolved p xs \<or> is_resolved p ys)"
  by (auto simp: is_resolved_iff)

lemma notify_effects_only_own:
  assumes "is_resolved p (notify_effects entries ws)"
  shows "p \<in> set (map (op_done \<circ> snd) ws)"
  using assms
  by (auto simp: is_resolved_iff notify_effects_def notify_one_def fail_with_def
      dest!: set_takeWhileD set_dropWhileD)

lemma notify_effects_in_batch:
  assumes "map_inv ws" and "(i, c) \<in> set ws" and "i \<le> idx (last entries)"
  shows "is_resolved (op_done c) (notify_effects entries ws)"
proof -
  have "takeWhile (in_batch entries) ws = filter (\<lambda>w. fst w \<le> idx (last entries)) ws"
    using takeWhile_le_sorted[OF map_inv_sorted[OF assms(1)]] by (simp add: in_batch_def[abs_def])
  with assms(2,3) have "(i, c) \<in> set (takeWhile (in_batch entries) ws)" by simp
  then have "notify_one entries (i, c) \<in> set (notify_effects entries ws)"
    by (simp add: notify_effects_def)
  then show ?thesis
    by (auto simp: is_resolved_iff notify_one_def)
qed

lemma drop_effects_only_own:
  assumes "is_resolved p (map (fail_with e) (takeWhile P ws))"
  shows "p \<in> set (map (op_done \<circ> snd) ws)"
  using assms by (auto simp: is_resolved_iff fail_with_def dest!: set_takeWhileD)

lemma drop_effects_covered:
  assumes "map_inv ws" and "(i, c) \<in> set ws" and "covered up_to (i, c)"
  shows "is_resolved (op_done c) (map (fail_with e) (takeWhile (covered up_to) ws))"
proof (cases up_to)
  case None
  then have tw: "takeWhile (covered up_to) ws = ws" by (simp add: covered_def[abs_def])
  from assms(2) have "(i, c) \<in> set (takeWhile (covered up_to) ws)"
    unfolding tw by assumption
  then have "fail_with e (i, c) \<in> set (map (fail_with e) (takeWhile (covered up_to) ws))"
    by force
  then show ?thesis unfolding is_resolved_iff fail_with_def by auto
next
  case (Some m)
  have "takeWhile (covered up_to) ws = filter (\<lambda>w. fst w \<le> m) ws"
    using takeWhile_le_sorted[OF map_inv_sorted[OF assms(1)]] by (simp add: Some covered_Some)
  with assms(2,3) Some have "(i, c) \<in> set (takeWhile (covered up_to) ws)"
    by (simp add: covered_def)
  then have "fail_with e (i, c) \<in> set (map (fail_with e) (takeWhile (covered up_to) ws))"
    by force
  then show ?thesis unfolding is_resolved_iff fail_with_def by auto
qed

lemma apply_batch_prefix:
  assumes "apply_batch env batch s = Inr (r, s')"
  shows "\<exists>rest. new_effects s s' = notify_effects batch (awaited_commits s) @ rest"
  using assms
proof (cases rule: apply_batch_cases)
  case (threw s1)
  then show ?thesis
    using notify_waiters_effects[OF threw(1)] by (simp add: new_effects_def container_def emit_def)
next
  case (applied s1 s3 s4)
  have e1: "effects s1 = effects s @ notify_effects batch (awaited_commits s)"
    using notify_waiters_effects[OF applied(1)] by (simp add: container_def)
  have e3: "\<exists>r3. effects s3 = effects s1 @ r3"
    by (simp add: applied(4) helper_defs)
  have e4: "\<exists>r4. effects s4 = effects s3 @ r4"
    using notify_waiters_effects[OF applied(5)] by simp
  have e5: "\<exists>r5. effects s' = effects s4 @ r5"
    using take_local_snapshot_effects[OF applied(6)] by simp
  from e1 e3 e4 e5 show ?thesis
    by (auto simp: new_effects_def)
qed

section \<open>The coroutines\<close>



lemma add_entry_internal_resume_suspended:
  assumes "add_entry_internal_resume ev a s = Inr (a', s')" and "suspended a"
  shows "a' = returned \<or> (\<exists>e. a' = threw e) \<or> suspended a'"
  using assms
  by (auto simp: add_entry_internal_resume_def suspended_def
      split: add_entry_pc.splits resume_event.splits sum.splits prod.splits if_splits outcome.splits)


lemma multimap_emplace_member: "(k, v) \<in> set (multimap_emplace k v xs)"
  by (induction xs) auto





lemma when_all_succeed_failed:
  "when_all_succeed fs = set_exception e \<Longrightarrow> set_exception e \<in> set fs"
  by (induction fs rule: when_all_succeed.induct) auto

section \<open>Notification of waiters\<close>

lemmas example_defs = example_config_def example_server_def example_env_def zero_stats_def
  failing_io_env_def quiet_abort_env_def

lemmas eval_defs = notify_waiters_def drop_in_def drop_waiters_def signal_applied_def
  apply_batch_def apply_snapshot_item_def applier_iteration_def take_local_snapshot_def
  helper_defs new_effects_def Let_def

lemma batch_inv_last:
  assumes "batch_inv entries"
  shows "idx (last entries) = idx (hd entries) + length entries - 1"
proof -
  from assms have ne: "entries \<noteq> []"
    and m: "map idx entries = [idx (hd entries) ..< idx (hd entries) + length entries]"
    by (simp_all add: batch_inv_def)
  from ne have "idx (last entries) = last (map idx entries)"
    by (simp add: last_map)
  also have "\<dots> = last [idx (hd entries) ..< idx (hd entries) + length entries]"
    by (simp only: m)
  also from ne have "\<dots> = idx (hd entries) + length entries - 1"
    by simp
  finally show ?thesis .
qed

text \<open>
  What \<^verbatim>\<open>notify_waiters\<close> does on the inputs of the claim C1: a batch with consecutive
  indexes and a container whose keys are not below the first index of the batch.  Every
  waiter up to the last index is removed and notified by its term.  Of the waiters
  beyond, the ones removed and failed are those visited before the first waiter whose
  term is not below the term of the last entry.
\<close>

lemma notify_waiters_on_batch:
  assumes b: "batch_inv entries"
    and m: "map_inv (container w s)"
    and f: "\<forall>x\<in>set (container w s). idx (hd entries) \<le> fst x"
  shows "\<exists>s'. notify_waiters w entries s = Inr s'
     \<and> container w s' =
         dropWhile (stale entries) (filter (\<lambda>x. idx (last entries) < fst x) (container w s))
     \<and> new_effects s s' =
         map (notify_one entries) (filter (\<lambda>x. fst x \<le> idx (last entries)) (container w s))
         @ map (fail_with dropped_entry)
             (takeWhile (stale entries) (filter (\<lambda>x. idx (last entries) < fst x) (container w s)))"
proof -
  let ?ws = "container w s"
  from b have ne: "entries \<noteq> []" by (simp add: batch_inv_def)
  have "\<forall>x\<in>set ?ws. in_batch entries x \<longrightarrow>
          idx (hd entries) \<le> fst x \<and> fst x - idx (hd entries) < length entries"
  proof (intro ballI impI)
    fix x assume x: "x \<in> set ?ws" and i: "in_batch entries x"
    from ne have "0 < length entries" by simp
    moreover from f x have "idx (hd entries) \<le> fst x" by blast
    moreover from i batch_inv_last[OF b] have "fst x \<le> idx (hd entries) + length entries - 1"
      by (simp add: in_batch_def)
    ultimately show "idx (hd entries) \<le> fst x \<and> fst x - idx (hd entries) < length entries"
      by arith
  qed
  then obtain r where r: "notify_committed entries ?ws = Inr r"
    using notify_committed_total by blast
  with ne have "\<exists>s'. notify_waiters w entries s = Inr s'"
    by (auto simp: notify_waiters_def split: prod.splits)
  then obtain s' where s': "notify_waiters w entries s = Inr s'" ..
  have srt: "sorted (map fst ?ws)" using m by (rule map_inv_sorted)
  have tw: "takeWhile (in_batch entries) ?ws = filter (\<lambda>x. fst x \<le> idx (last entries)) ?ws"
    using takeWhile_le_sorted[OF srt] by (simp add: in_batch_def[abs_def])
  have dw: "dropWhile (in_batch entries) ?ws = filter (\<lambda>x. idx (last entries) < fst x) ?ws"
    using dropWhile_le_sorted[OF srt] by (simp add: in_batch_def[abs_def])
  have "container w s' = dropWhile (stale entries) (filter (\<lambda>x. idx (last entries) < fst x) ?ws)"
    using notify_waiters_container[OF s'] by (simp add: notify_rest_def dw)
  moreover have "new_effects s s' =
         map (notify_one entries) (filter (\<lambda>x. fst x \<le> idx (last entries)) ?ws)
         @ map (fail_with dropped_entry)
             (takeWhile (stale entries) (filter (\<lambda>x. idx (last entries) < fst x) ?ws))"
    using notify_waiters_effects[OF s'] by (simp add: new_effects_def notify_effects_def tw dw)
  ultimately show ?thesis using s' by blast
qed

text \<open>
  Where the terms of the waiters do not decrease with the index, the second loop
  removes every waiter beyond the batch whose term is below the term of the last entry.
\<close>

lemma takeWhile_stale_sorted:
  "sorted (map (op_term \<circ> snd) ws) \<Longrightarrow> takeWhile (stale entries) ws = filter (stale entries) ws"
proof (induction ws)
  case Nil
  then show ?case by simp
next
  case (Cons w ws)
  show ?case
  proof (cases "stale entries w")
    case True
    with Cons show ?thesis by simp
  next
    case False
    have "\<forall>x\<in>set ws. \<not> stale entries x"
      using Cons.prems False by (fastforce simp: stale_def)
    then have "filter (stale entries) ws = []"
      by (simp add: filter_empty_conv)
    with False show ?thesis by simp
  qed
qed

lemma dropWhile_stale_sorted:
  "sorted (map (op_term \<circ> snd) ws) \<Longrightarrow>
     dropWhile (stale entries) ws = filter (\<lambda>x. \<not> stale entries x) ws"
proof (induction ws)
  case Nil
  then show ?case by simp
next
  case (Cons w ws)
  show ?case
  proof (cases "stale entries w")
    case True
    with Cons show ?thesis by simp
  next
    case False
    have "\<forall>x\<in>set ws. \<not> stale entries x"
      using Cons.prems False by (fastforce simp: stale_def)
    then have "filter (\<lambda>x. \<not> stale entries x) ws = ws"
      by (simp add: filter_id_conv)
    with False show ?thesis by simp
  qed
qed

lemma notify_waiters_on_batch_sorted_terms:
  assumes "batch_inv entries"
    and "map_inv (container w s)"
    and "\<forall>x\<in>set (container w s). idx (hd entries) \<le> fst x"
    and "sorted (map (op_term \<circ> snd) (container w s))"
  shows "\<exists>s'. notify_waiters w entries s = Inr s'
     \<and> container w s' =
         filter (\<lambda>x. \<not> stale entries x) (filter (\<lambda>x. idx (last entries) < fst x) (container w s))
     \<and> new_effects s s' =
         map (notify_one entries) (filter (\<lambda>x. fst x \<le> idx (last entries)) (container w s))
         @ map (fail_with dropped_entry)
             (filter (stale entries) (filter (\<lambda>x. idx (last entries) < fst x) (container w s)))"
proof -
  let ?rest = "filter (\<lambda>x. idx (last entries) < fst x) (container w s)"
  have "sorted (map (op_term \<circ> snd) ?rest)"
    using assms(4) by (rule sorted_filter)
  then have tw: "takeWhile (stale entries) ?rest = filter (stale entries) ?rest"
    by (rule takeWhile_stale_sorted)
  have "dropWhile (stale entries) ?rest = filter (\<lambda>x. \<not> stale entries x) ?rest"
    using \<open>sorted (map (op_term \<circ> snd) ?rest)\<close> by (rule dropWhile_stale_sorted)
  with tw notify_waiters_on_batch[OF assms(1,2,3)] show ?thesis by simp
qed

text \<open>
  C1.  The claim: after the main pass, every remaining waiter whose term is below the
  term of the last entry is removed and failed with \<^verbatim>\<open>dropped_entry\<close>.  The comment
  of the second loop says the same ("Drop all waiters with smaller term").  The loop
  stops at the first waiter it does not drop: with the batch
  \<open>[(term 6, index 7), (term 7, index 8)]\<close> and the waiters \<open>9 \<mapsto> term 7\<close> and
  \<open>10 \<mapsto> term 5\<close>, the waiter of index 10 has a term below 7 and is neither removed
  nor failed; the call changes nothing.
\<close>

theorem notify_waiters_keeps_stale_waiter:
  "notify_waiters wait_committed
     [\<lparr>entry_term = 6, idx = 7, data = dummy\<rparr>, \<lparr>entry_term = 7, idx = 8, data = dummy\<rparr>]
     (example_server\<lparr>awaited_commits :=
        [(9, \<lparr>op_term = 7, op_done = 1\<rparr>), (10, \<lparr>op_term = 5, op_done = 2\<rparr>)]\<rparr>)
   = Inr (example_server\<lparr>awaited_commits :=
        [(9, \<lparr>op_term = 7, op_done = 1\<rparr>), (10, \<lparr>op_term = 5, op_done = 2\<rparr>)]\<rparr>)"
  by (simp add: eval_defs example_defs)

section \<open>Construction and the configuration check\<close>

text \<open>
  C2.  The claim: a configuration with \<open>snapshot_threshold \<ge> max_log_size\<close>, equality
  included, makes construction fail with a configuration error.  The constructor
  compares with \<open>>\<close>, although its own message reads "has to be smaller": at
  \<open>snapshot_threshold = max_log_size = 10\<close> it builds the server.
\<close>

theorem server_impl_ctor_accepts_equal_threshold:
  "server_impl_ctor 1 \<lparr>append_request_threshold = 1, max_log_size = 10, snapshot_threshold = 10,
       snapshot_trailing = 5, enable_prevoting = True\<rparr>
   = Inr \<lparr>config = \<lparr>append_request_threshold = 1, max_log_size = 10, snapshot_threshold = 10,
                snapshot_trailing = 5, enable_prevoting = True\<rparr>,
            applied_idx = 0, self_id = 1, stepdown_promise = None, leader_promise = None,
            reads = [], current_rpc_config = [],
            awaited_indexes = [], awaited_commits = [], awaited_applies = [],
            snapshot_application_done = [], snapshot_transfers = [],
            aborted_snapshot_transfers = [], next_snapshot_transfer_id = 0,
            append_request_status = [],
            server_stats = zero_stats, next_promise = 0, effects = []\<rparr>"
  by (simp add: server_impl_ctor_def)

section \<open>The applied index never decreases\<close>

lemma add_joining_applied_idx:
  "add_joining th js s = Inr s' \<Longrightarrow> applied_idx s' = applied_idx s"
  using keeps_add_joining[of s th js] by (simp add: keeps_applied_idx_def)

lemma add_joining_returns: "\<exists>s'. add_joining None js s = Inr s'"
  by (induction js arbitrary: s) (auto simp: and_then_def call_def)

lemma add_joining_throws: "js \<noteq> [] \<Longrightarrow> \<exists>s'. add_joining (Some e) js s = Inl (thrown e s')"
  by (cases js) (auto simp: and_then_def call_def)

text \<open>The value \<^verbatim>\<open>start\<close> leaves in \<^verbatim>\<open>_applied_idx\<close>, and when \<^verbatim>\<open>start\<close> returns.\<close>

lemma start_applied_idx:
  assumes "start env s = Inr s1"
  shows "applied_idx s1 = (if snp_id (loaded_snapshot env) \<noteq> 0 then snp_idx (loaded_snapshot env) else 0)"
  using assms
  by (auto simp: start_def and_then_def call_def emit_def Let_def
      split: option.splits if_splits prod.splits sum.splits dest!: add_joining_applied_idx)

lemma start_returns:
  "(\<exists>s1. start env s = Inr s1) =
     (load_term_and_vote_throws env = None \<and> load_snapshot_descriptor_throws env = None
      \<and> load_log_throws env = None
      \<and> (snp_id (loaded_snapshot env) \<noteq> 0 \<longrightarrow> start_load_snapshot_throws env = None)
      \<and> (fst (log_configuration env) \<noteq> [] \<longrightarrow> start_add_server_throws env = None))"
proof (cases "start_add_server_throws env")
  case None
  have r: "\<And>js s st. add_joining None js s \<noteq> Inl st"
    using add_joining_returns by (metis sum.distinct(1))
  show ?thesis
    using None
    by (auto simp: start_def and_then_def call_def Let_def r
        split: option.splits if_splits prod.splits sum.splits)
next
  case (Some e)
  have t: "\<And>js s s'. js \<noteq> [] \<Longrightarrow> add_joining (Some e) js s \<noteq> Inr s'"
    using add_joining_throws by (metis sum.distinct(1))
  show ?thesis
    using Some
    by (auto simp: start_def and_then_def call_def Let_def t
        split: option.splits if_splits prod.splits sum.splits)
qed

lemma server_lifetime_sorted: "sorted (server_lifetime uuid cfg env ops)"
proof (cases "server_impl_ctor uuid cfg")
  case (Inl e)
  then show ?thesis by (simp add: server_lifetime_def)
next
  case (Inr s0)
  then have z: "applied_idx s0 = 0"
    by (auto simp: server_impl_ctor_def split: if_splits)
  show ?thesis
  proof (cases "start env s0")
    case (Inl st)
    with Inr show ?thesis by (simp add: server_lifetime_def)
  next
    case s1: (Inr s1)
    from applied_after_sorted[of s1 ops] z Inr s1 show ?thesis
      by (simp add: server_lifetime_def)
  qed
qed

text \<open>
  C3.  The life of a server is its construction, one run of \<^verbatim>\<open>start\<close> on the server
  constructed, then operations of the started server: \<^verbatim>\<open>start\<close> is what creates the
  FSM and starts the fibers, and it assigns 0 to \<^verbatim>\<open>_applied_idx\<close> before it loads the
  snapshot, so it is not an operation of a running server.  \<^verbatim>\<open>_applied_idx\<close> is 0 in a
  constructed server.  \<^verbatim>\<open>start\<close> returns exactly when none of the calls it makes
  throws, and then \<^verbatim>\<open>_applied_idx\<close> is the index of the loaded snapshot, or 0 when
  there is none.  Along the whole life, after the constructor, after \<^verbatim>\<open>start\<close> and
  after each operation, the values of \<^verbatim>\<open>_applied_idx\<close> never decrease, and no sequence
  of operations of a server decreases it.  An iteration of the applier that completes
  on a non-empty batch leaves it at the index of the last entry of the batch, which is
  the old value plus the length of the batch; one that completes on a snapshot leaves
  it at the index of the snapshot, which was not below the old value.
\<close>

theorem applied_idx_monotonic:
  "(server_impl_ctor uuid cfg = Inr s0 \<longrightarrow> applied_idx s0 = 0)
   \<and> ((\<exists>s1. start start_answers s0 = Inr s1) =
        (load_term_and_vote_throws start_answers = None
         \<and> load_snapshot_descriptor_throws start_answers = None
         \<and> load_log_throws start_answers = None
         \<and> (snp_id (loaded_snapshot start_answers) \<noteq> 0 \<longrightarrow> start_load_snapshot_throws start_answers = None)
         \<and> (fst (log_configuration start_answers) \<noteq> [] \<longrightarrow> start_add_server_throws start_answers = None)))
   \<and> (start start_answers s0 = Inr s1 \<longrightarrow>
        applied_idx s1 = (if snp_id (loaded_snapshot start_answers) \<noteq> 0
                          then snp_idx (loaded_snapshot start_answers) else 0))
   \<and> sorted (server_lifetime uuid cfg start_answers ops)
   \<and> (run_ops ops s = Inr s' \<longrightarrow> applied_idx s \<le> applied_idx s')
   \<and> (batch \<noteq> [] \<and> applier_iteration env (entries_item batch) s = Inr (None, s2) \<longrightarrow>
        applied_idx s2 = idx (last batch) \<and> idx (last batch) = applied_idx s + length batch)
   \<and> (applier_iteration env (snapshot_item snap) s = Inr (None, s3) \<longrightarrow>
        applied_idx s \<le> snp_idx snap \<and> applied_idx s3 = snp_idx snap)"
proof (intro conjI impI)
  assume "server_impl_ctor uuid cfg = Inr s0"
  then show "applied_idx s0 = 0"
    by (auto simp: server_impl_ctor_def split: if_splits)
next
  show "(\<exists>s1. start start_answers s0 = Inr s1) =
        (load_term_and_vote_throws start_answers = None
         \<and> load_snapshot_descriptor_throws start_answers = None
         \<and> load_log_throws start_answers = None
         \<and> (snp_id (loaded_snapshot start_answers) \<noteq> 0 \<longrightarrow> start_load_snapshot_throws start_answers = None)
         \<and> (fst (log_configuration start_answers) \<noteq> [] \<longrightarrow> start_add_server_throws start_answers = None))"
    by (rule start_returns)
next
  assume "start start_answers s0 = Inr s1"
  then show "applied_idx s1 = (if snp_id (loaded_snapshot start_answers) \<noteq> 0
                          then snp_idx (loaded_snapshot start_answers) else 0)"
    by (rule start_applied_idx)
next
  show "sorted (server_lifetime uuid cfg start_answers ops)"
    by (rule server_lifetime_sorted)
next
  assume "run_ops ops s = Inr s'"
  then show "applied_idx s \<le> applied_idx s'" by (rule run_ops_applied_idx)
next
  assume a: "batch \<noteq> [] \<and> applier_iteration env (entries_item batch) s = Inr (None, s2)"
  then obtain s'' where ab: "apply_batch env batch s = Inr (None, s'')" and s2: "s2 = signal_applied s''"
    by (auto simp: applier_iteration_def split: sum.splits option.splits prod.splits)
  from apply_batch_applied_idx(2)[OF ab] s2 show "applied_idx s2 = idx (last batch)"
    by (simp add: signal_applied_applied_idx)
  from apply_batch_applied_idx(3)[OF ab] show "idx (last batch) = applied_idx s + length batch"
    by simp
next
  assume a: "applier_iteration env (snapshot_item snap) s = Inr (None, s3)"
  then obtain s'' where ab: "apply_snapshot_item env snap s = Inr (None, s'')" and s3: "s3 = signal_applied s''"
    by (auto simp: applier_iteration_def split: sum.splits option.splits prod.splits)
  from apply_snapshot_item_applied_idx(2)[OF ab] show "applied_idx s \<le> snp_idx snap" .
  from apply_snapshot_item_applied_idx(3)[OF ab] s3 show "applied_idx s3 = snp_idx snap"
    by (simp add: signal_applied_applied_idx)
qed

theorem applied_idx_monotonic_witness:
  "server_impl_ctor 1 example_config = Inr constructed_server
   \<and> applied_idx constructed_server = 0
   \<and> start example_start_env constructed_server = Inr started_server
   \<and> applied_idx started_server = 6
   \<and> server_lifetime 1 example_config example_start_env
        [applier_op example_env (entries_item [\<lparr>entry_term = 2, idx = 7, data = command_data 5\<rparr>]),
         stepdown_op 10 None,
         applier_op example_env
           (snapshot_item \<lparr>snp_idx = 9, snp_term = 2, snp_config = [1, 2, 3], snp_id = 42\<rparr>)]
       = [0, 6, 7, 7, 9]
   \<and> run_ops [applier_op example_env (entries_item [\<lparr>entry_term = 2, idx = 7, data = command_data 5\<rparr>]),
            stepdown_op 10 None,
            applier_op example_env
              (snapshot_item \<lparr>snp_idx = 9, snp_term = 2, snp_config = [1, 2, 3], snp_id = 42\<rparr>)]
        started_server
       = Inr (started_server\<lparr>applied_idx := 9, stepdown_promise := Some 0, next_promise := 1,
                server_stats := zero_stats\<lparr>applied_entries := 1, sm_load_snapshot_count := 1\<rparr>,
                effects := effects started_server
                             @ [sm_apply [5], fsm_transfer_leadership 10, sm_load_snapshot 42]\<rparr>)
   \<and> applied_idx started_server
       \<le> applied_idx (started_server\<lparr>applied_idx := 9, stepdown_promise := Some 0, next_promise := 1,
                server_stats := zero_stats\<lparr>applied_entries := 1, sm_load_snapshot_count := 1\<rparr>,
                effects := effects started_server
                             @ [sm_apply [5], fsm_transfer_leadership 10, sm_load_snapshot 42]\<rparr>)
   \<and> applier_iteration example_env
         (entries_item [\<lparr>entry_term = 2, idx = 7, data = command_data 5\<rparr>,
                        \<lparr>entry_term = 2, idx = 8, data = dummy\<rparr>]) started_server
       = Inr (None, started_server\<lparr>applied_idx := 8,
                server_stats := zero_stats\<lparr>applied_entries := 1\<rparr>,
                effects := effects started_server @ [sm_apply [5]]\<rparr>)
   \<and> idx (last [\<lparr>entry_term = 2, idx = 7, data = command_data 5\<rparr>,
                  \<lparr>entry_term = 2, idx = 8, data = dummy\<rparr>])
       = applied_idx started_server + 2
   \<and> applier_iteration example_env
         (snapshot_item \<lparr>snp_idx = 9, snp_term = 2, snp_config = [1, 2, 3], snp_id = 42\<rparr>)
         started_server
       = Inr (None, started_server\<lparr>applied_idx := 9,
                server_stats := zero_stats\<lparr>sm_load_snapshot_count := 1\<rparr>,
                effects := effects started_server @ [sm_load_snapshot 42]\<rparr>)
   \<and> applied_idx started_server \<le> 9"
proof -
  let ?ops = "[applier_op example_env (entries_item [\<lparr>entry_term = 2, idx = 7, data = command_data 5\<rparr>]),
            stepdown_op 10 None,
            applier_op example_env
              (snapshot_item \<lparr>snp_idx = 9, snp_term = 2, snp_config = [1, 2, 3], snp_id = 42\<rparr>)]"
  let ?end = "started_server\<lparr>applied_idx := 9, stepdown_promise := Some 0, next_promise := 1,
                server_stats := zero_stats\<lparr>applied_entries := 1, sm_load_snapshot_count := 1\<rparr>,
                effects := effects started_server
                             @ [sm_apply [5], fsm_transfer_leadership 10, sm_load_snapshot 42]\<rparr>"
  have c: "server_impl_ctor 1 example_config = Inr constructed_server"
    by (simp add: server_impl_ctor_def constructed_server_def example_defs)
  have st: "start example_start_env constructed_server = Inr started_server"
    by (simp add: start_def and_then_def call_def emit_def add_to_rpc_config_def Let_def
        example_start_env_def started_server_def constructed_server_def example_defs)
  have run: "run_ops ?ops started_server = Inr ?end"
    by (simp add: server_step_def stepdown_def eval_defs started_server_def example_defs)
  have steps: "applied_after ?ops started_server = [7, 7, 9]"
    by (simp add: server_step_def stepdown_def eval_defs started_server_def example_defs)
  have life: "server_lifetime 1 example_config example_start_env ?ops = [0, 6, 7, 7, 9]"
    unfolding server_lifetime_def c sum.case st steps
    by (simp add: constructed_server_def started_server_def example_defs)
  let ?batch = "[\<lparr>entry_term = 2, idx = 7, data = command_data 5\<rparr>,
                 \<lparr>entry_term = 2, idx = 8, data = dummy\<rparr>]"
  let ?snap = "\<lparr>snp_idx = 9, snp_term = 2, snp_config = [1, 2, 3], snp_id = 42\<rparr>"
  let ?after_batch = "started_server\<lparr>applied_idx := 8,
                server_stats := zero_stats\<lparr>applied_entries := 1\<rparr>,
                effects := effects started_server @ [sm_apply [5]]\<rparr>"
  let ?after_snap = "started_server\<lparr>applied_idx := 9,
                server_stats := zero_stats\<lparr>sm_load_snapshot_count := 1\<rparr>,
                effects := effects started_server @ [sm_load_snapshot 42]\<rparr>"
  have b: "applier_iteration example_env (entries_item ?batch) started_server = Inr (None, ?after_batch)"
    by (simp add: eval_defs started_server_def example_defs)
  have sn: "applier_iteration example_env (snapshot_item ?snap) started_server = Inr (None, ?after_snap)"
    by (simp add: eval_defs started_server_def example_defs)
  note life_of = applied_idx_monotonic[where uuid=1 and cfg=example_config and ?s0.0=constructed_server
      and start_answers=example_start_env and ?s1.0=started_server and ops="?ops"
      and s=started_server and s'="?end" and batch="?batch" and env=example_env
      and ?s2.0="?after_batch" and snap="?snap" and ?s3.0="?after_snap"]
  from life_of c have z: "applied_idx constructed_server = 0" by blast
  from life_of st
  have "applied_idx started_server = (if snp_id (loaded_snapshot example_start_env) \<noteq> 0
                          then snp_idx (loaded_snapshot example_start_env) else 0)" by blast
  then have six: "applied_idx started_server = 6" by (simp add: example_start_env_def)
  from life_of run have le: "applied_idx started_server \<le> applied_idx ?end" by blast
  have "?batch \<noteq> []" by simp
  with life_of b have last: "idx (last ?batch) = applied_idx started_server + length ?batch" by blast
  from life_of sn have le9: "applied_idx started_server \<le> snp_idx ?snap" by blast
  from last have last': "idx (last ?batch) = applied_idx started_server + 2" by simp
  from le9 have le9': "applied_idx started_server \<le> 9" by simp
  from c z st six life run le b last' sn le9' show ?thesis by blast
qed

section \<open>Commit waiters before apply waiters\<close>

text \<open>
  C4, as stated: whenever a commit waiter and an apply waiter are registered at the
  same index, the commit waiter is resolved first.  It fails for an index beyond the
  batch: the second loop of \<^verbatim>\<open>notify_waiters\<close> runs on each container by itself.
  With a commit waiter of term 6 and an apply waiter of term 4 at index 10, the batch
  \<open>[(term 5, index 7)]\<close> fails the apply waiter and leaves the commit waiter pending.
\<close>

theorem stale_apply_waiter_resolved_first:
  "applier_iteration example_env (entries_item [\<lparr>entry_term = 5, idx = 7, data = dummy\<rparr>])
     stale_apply_server
   = Inr (None,
       stale_apply_server\<lparr>applied_idx := 7, awaited_applies := [],
         server_stats := zero_stats\<lparr>waiters_awaken := 1\<rparr>,
         effects := [resolve 2 (set_exception dropped_entry)]\<rparr>)
   \<and> (10, \<lparr>op_term = 6, op_done = 1\<rparr>) \<in> set (awaited_commits stale_apply_server)
   \<and> (10, \<lparr>op_term = 4, op_done = 2\<rparr>) \<in> set (awaited_applies stale_apply_server)
   \<and> \<not> resolved_before
        (new_effects stale_apply_server
           (stale_apply_server\<lparr>applied_idx := 7, awaited_applies := [],
              server_stats := zero_stats\<lparr>waiters_awaken := 1\<rparr>,
              effects := [resolve 2 (set_exception dropped_entry)]\<rparr>))
        1 2"
  by (simp add: eval_defs example_defs stale_apply_server_def resolved_before_def)

text \<open>
  C4, amended.  For an index \<open>i\<close> up to the last index of the batch, an iteration of
  the applier that returns has resolved the commit waiter of \<open>i\<close>, and before the apply
  waiter of \<open>i\<close>; and \<^verbatim>\<open>drop_waiters\<close> resolves the commit waiter of every index it
  covers, before the apply waiter of that index.  The promises of the two containers
  are different objects, which is the last hypothesis.
\<close>

theorem commit_waiter_resolved_first:
  assumes "map_inv (awaited_commits s)"
    and "(i, c) \<in> set (awaited_commits s)"
    and "(i, a) \<in> set (awaited_applies s)"
    and "op_done a \<notin> set (map (op_done \<circ> snd) (awaited_commits s))"
  shows "(batch \<noteq> [] \<and> i \<le> idx (last batch) \<and> applier_iteration env (entries_item batch) s = Inr (r, s')
            \<longrightarrow> is_resolved (op_done c) (new_effects s s')
              \<and> resolved_before (new_effects s s') (op_done c) (op_done a))
       \<and> (covered up_to (i, c)
            \<longrightarrow> is_resolved (op_done c) (new_effects s (drop_waiters up_to s))
              \<and> resolved_before (new_effects s (drop_waiters up_to s)) (op_done c) (op_done a))"
proof (intro conjI impI)
  assume b: "batch \<noteq> [] \<and> i \<le> idx (last batch) \<and> applier_iteration env (entries_item batch) s = Inr (r, s')"
  then obtain s'' where ab: "apply_batch env batch s = Inr (r, s'')"
    and s': "s' = (if r = None then signal_applied s'' else s'')"
    by (auto simp: applier_iteration_def split: sum.splits option.splits prod.splits)
  from apply_batch_prefix[OF ab] obtain rest where
    "new_effects s s'' = notify_effects batch (awaited_commits s) @ rest" ..
  moreover have "\<exists>sig. effects s' = effects s'' @ sig"
    by (simp add: s' signal_applied_effects)
  ultimately obtain rest' where ne: "new_effects s s' = notify_effects batch (awaited_commits s) @ rest'"
    by (auto simp: new_effects_def)
  have c: "is_resolved (op_done c) (notify_effects batch (awaited_commits s))"
    using assms(1,2) b by (simp add: notify_effects_in_batch)
  have a: "\<not> is_resolved (op_done a) (notify_effects batch (awaited_commits s))"
    using assms(4) notify_effects_only_own by blast
  show "is_resolved (op_done c) (new_effects s s')"
    using c by (simp add: ne is_resolved_append)
  show "resolved_before (new_effects s s') (op_done c) (op_done a)"
    unfolding ne using c a by (rule resolved_before_append)
next
  assume cov: "covered up_to (i, c)"
  let ?ec = "map (fail_with commit_status_unknown) (takeWhile (covered up_to) (awaited_commits s))"
  let ?ea = "map (fail_with commit_status_unknown) (takeWhile (covered up_to) (awaited_applies s))"
  have ne: "new_effects s (drop_waiters up_to s) = ?ec @ ?ea"
    by (simp add: new_effects_def drop_waiters_fields)
  have c: "is_resolved (op_done c) ?ec"
    using assms(1,2) cov by (rule drop_effects_covered)
  have a: "\<not> is_resolved (op_done a) ?ec"
    using assms(4) drop_effects_only_own by blast
  show "is_resolved (op_done c) (new_effects s (drop_waiters up_to s))"
    using c by (simp add: ne is_resolved_append)
  show "resolved_before (new_effects s (drop_waiters up_to s)) (op_done c) (op_done a)"
    unfolding ne using c a by (rule resolved_before_append)
qed

theorem commit_waiter_resolved_first_witness:
  "applier_iteration example_env (entries_item [\<lparr>entry_term = 5, idx = 7, data = dummy\<rparr>])
     same_index_server
   = Inr (None,
       same_index_server\<lparr>applied_idx := 7, awaited_commits := [], awaited_applies := [],
         server_stats := zero_stats\<lparr>waiters_awaken := 2\<rparr>,
         effects := [resolve 1 set_value, resolve 2 set_value]\<rparr>)
   \<and> resolved_before
        (new_effects same_index_server
           (same_index_server\<lparr>applied_idx := 7, awaited_commits := [], awaited_applies := [],
              server_stats := zero_stats\<lparr>waiters_awaken := 2\<rparr>,
              effects := [resolve 1 set_value, resolve 2 set_value]\<rparr>))
        1 2
   \<and> resolved_before (new_effects same_index_server (drop_waiters (Some 8) same_index_server)) 1 2"
proof -
  have h1: "map_inv (awaited_commits same_index_server)"
    by (simp add: same_index_server_def map_inv_def)
  have h2: "(7, \<lparr>op_term = 5, op_done = 1\<rparr>) \<in> set (awaited_commits same_index_server)"
    by (simp add: same_index_server_def)
  have h3: "(7, \<lparr>op_term = 5, op_done = 2\<rparr>) \<in> set (awaited_applies same_index_server)"
    by (simp add: same_index_server_def)
  have h4: "op_done \<lparr>op_term = 5, op_done = 2\<rparr>
      \<notin> set (map (op_done \<circ> snd) (awaited_commits same_index_server))"
    by (simp add: same_index_server_def)
  have ev: "applier_iteration example_env (entries_item [\<lparr>entry_term = 5, idx = 7, data = dummy\<rparr>])
      same_index_server
    = Inr (None,
       same_index_server\<lparr>applied_idx := 7, awaited_commits := [], awaited_applies := [],
         server_stats := zero_stats\<lparr>waiters_awaken := 2\<rparr>,
         effects := [resolve 1 set_value, resolve 2 set_value]\<rparr>)"
    by (simp add: eval_defs example_defs same_index_server_def)
  have cov: "covered (Some 8) (7, \<lparr>op_term = 5, op_done = 1\<rparr>)"
    by (simp add: covered_def)
  from commit_waiter_resolved_first[OF h1 h2 h3 h4,
      of "[\<lparr>entry_term = 5, idx = 7, data = dummy\<rparr>]" example_env None _ "Some 8"] ev cov
  show ?thesis by simp
qed

section \<open>Applying a snapshot\<close>

text \<open>
  C5.  An iteration of the applier on a snapshot whose index is not below the applied
  index, when the state machine loads it: the iteration completes; the state machine
  is asked to load the snapshot first; then every commit waiter and every apply waiter
  of an index up to the index of the snapshot is failed with
  \<^verbatim>\<open>commit_status_unknown\<close> and removed, the commit waiters first; the applied index
  becomes the index of the snapshot; and every promise of \<^verbatim>\<open>_awaited_indexes\<close> with a
  key up to the applied index gets its value and is removed.
\<close>

theorem snapshot_item_applied:
  assumes "applied_idx s \<le> snp_idx snap"
    and "load_snapshot_throws env = None"
    and "map_inv (awaited_commits s)"
    and "map_inv (awaited_applies s)"
    and "multimap_inv (awaited_indexes s)"
  shows "\<exists>s'. applier_iteration env (snapshot_item snap) s = Inr (None, s')
     \<and> applied_idx s' = snp_idx snap
     \<and> awaited_commits s' = filter (\<lambda>w. snp_idx snap < fst w) (awaited_commits s)
     \<and> awaited_applies s' = filter (\<lambda>w. snp_idx snap < fst w) (awaited_applies s)
     \<and> awaited_indexes s' = filter (\<lambda>w. snp_idx snap < fst w) (awaited_indexes s)
     \<and> new_effects s s' =
         sm_load_snapshot (snp_id snap)
         # map (fail_with commit_status_unknown) (filter (\<lambda>w. fst w \<le> snp_idx snap) (awaited_commits s))
         @ map (fail_with commit_status_unknown) (filter (\<lambda>w. fst w \<le> snp_idx snap) (awaited_applies s))
         @ map (\<lambda>w. resolve (snd w) set_value) (filter (\<lambda>w. fst w \<le> snp_idx snap) (awaited_indexes s))"
proof -
  let ?m = "snp_idx snap"
  define s1 where "s1 = emit [sm_load_snapshot (snp_id snap)] s"
  define s2 where "s2 = count_sm_load_snapshot ((drop_waiters (Some ?m) s1)\<lparr>applied_idx := ?m\<rparr>)"
  have it: "applier_iteration env (snapshot_item snap) s = Inr (None, signal_applied s2)"
    using assms(1,2) by (simp add: applier_iteration_def apply_snapshot_item_def s1_def s2_def)
  have sc: "sorted (map fst (awaited_commits s))" and sa: "sorted (map fst (awaited_applies s))"
    using assms(3,4) by (simp_all add: map_inv_sorted)
  have si: "sorted (map fst (awaited_indexes s))"
    using assms(5) by (simp add: multimap_inv_def)
  have f1: "awaited_commits s1 = awaited_commits s" "awaited_applies s1 = awaited_applies s"
    "awaited_indexes s1 = awaited_indexes s" "effects s1 = effects s @ [sm_load_snapshot (snp_id snap)]"
    by (simp_all add: s1_def emit_def)
  have f2: "applied_idx s2 = ?m"
    "awaited_commits s2 = dropWhile (covered (Some ?m)) (awaited_commits s)"
    "awaited_applies s2 = dropWhile (covered (Some ?m)) (awaited_applies s)"
    "awaited_indexes s2 = awaited_indexes s"
    "effects s2 = effects s @ [sm_load_snapshot (snp_id snap)]
       @ map (fail_with commit_status_unknown) (takeWhile (covered (Some ?m)) (awaited_commits s))
       @ map (fail_with commit_status_unknown) (takeWhile (covered (Some ?m)) (awaited_applies s))"
    by (simp_all add: s2_def count_sm_load_snapshot_def drop_waiters_fields f1)
  have "applied_idx (signal_applied s2) = ?m"
    by (simp add: signal_applied_applied_idx f2)
  moreover have "awaited_commits (signal_applied s2) = filter (\<lambda>w. ?m < fst w) (awaited_commits s)"
    by (simp add: signal_applied_fields f2 covered_Some dropWhile_le_sorted[OF sc])
  moreover have "awaited_applies (signal_applied s2) = filter (\<lambda>w. ?m < fst w) (awaited_applies s)"
    by (simp add: signal_applied_fields f2 covered_Some dropWhile_le_sorted[OF sa])
  moreover have "awaited_indexes (signal_applied s2) = filter (\<lambda>w. ?m < fst w) (awaited_indexes s)"
    by (simp add: signal_applied_fields f2 dropWhile_le_sorted[OF si])
  moreover have "new_effects s (signal_applied s2) =
         sm_load_snapshot (snp_id snap)
         # map (fail_with commit_status_unknown) (filter (\<lambda>w. fst w \<le> ?m) (awaited_commits s))
         @ map (fail_with commit_status_unknown) (filter (\<lambda>w. fst w \<le> ?m) (awaited_applies s))
         @ map (\<lambda>w. resolve (snd w) set_value) (filter (\<lambda>w. fst w \<le> ?m) (awaited_indexes s))"
    by (simp add: new_effects_def signal_applied_effects f2 covered_Some
        takeWhile_le_sorted[OF sc] takeWhile_le_sorted[OF sa] takeWhile_le_sorted[OF si])
  ultimately show ?thesis using it by blast
qed

theorem snapshot_item_applied_witness:
  "\<exists>s'. applier_iteration example_env
          (snapshot_item \<lparr>snp_idx = 8, snp_term = 2, snp_config = [1, 2, 3], snp_id = 42\<rparr>)
          waiting_server = Inr (None, s')
     \<and> applied_idx s' = 8
     \<and> awaited_commits s' = [(9, \<lparr>op_term = 2, op_done = 2\<rparr>)]
     \<and> awaited_applies s' = []
     \<and> awaited_indexes s' = [(12, 6)]
     \<and> new_effects waiting_server s' =
         [sm_load_snapshot 42, resolve 1 (set_exception commit_status_unknown),
          resolve 3 (set_exception commit_status_unknown), resolve 4 set_value, resolve 5 set_value]"
  using snapshot_item_applied[of waiting_server
      "\<lparr>snp_idx = 8, snp_term = 2, snp_config = [1, 2, 3], snp_id = 42\<rparr>" example_env]
  by (simp add: example_defs waiting_server_def map_inv_def multimap_inv_def fail_with_def)

section \<open>The snapshot the applier takes by itself\<close>

text \<open>
  C6.  An iteration of the applier on a non-empty batch that got past the call of
  \<^verbatim>\<open>apply\<close> leaves the applied index at the last index of the batch, and asks the
  state machine for a snapshot if and only if the applied index is not below
  \<^verbatim>\<open>log_last_snapshot_idx()\<close> and exceeds it by at least \<^verbatim>\<open>snapshot_threshold\<close>.  The
  id the state machine returns is dropped again if and only if the snapshot was taken
  and \<^verbatim>\<open>apply_snapshot\<close> of the FSM returns false.
\<close>

theorem local_snapshot_policy:
  assumes "applier_iteration env (entries_item batch) s = Inr (r, s')"
    and "batch \<noteq> []"
    and "commands_of batch = [] \<or> apply_throws env = None"
  shows "applied_idx s' = idx (last batch)
    \<and> (sm_take_snapshot \<in> set (new_effects s s')) =
        (log_last_snapshot_idx env \<le> applied_idx s' \<and>
         snapshot_threshold (config s) \<le> applied_idx s' - log_last_snapshot_idx env)
    \<and> (\<forall>new_id. take_snapshot_result env = Inr new_id \<longrightarrow>
         (sm_drop_snapshot new_id \<in> set (new_effects s s')) =
           (sm_take_snapshot \<in> set (new_effects s s') \<and> \<not> fsm_apply_snapshot_accepts env))"
proof -
  from assms obtain s4 pre post where
    a4: "applied_idx s4 = idx (last batch)" and c4: "config s4 = config s"
    and a': "applied_idx s' = idx (last batch)"
    and pre: "list_all (\<lambda>e. is_resolution e \<or> e = sm_apply (commands_of batch)) pre"
    and post: "list_all is_resolution post"
    and ne: "new_effects s s' = pre @
       (if snapshot_due env s4
        then sm_take_snapshot #
             (case take_snapshot_result env of
                Inl e \<Rightarrow> []
              | Inr new_id \<Rightarrow>
                  fsm_apply_snapshot \<lparr>snp_idx = applied_idx s4, snp_term = entry_term (last batch),
                      snp_config = log_last_conf_for env, snp_id = new_id\<rparr>
                    (snapshot_trailing (config s4)) True
                  # (if fsm_apply_snapshot_accepts env then [] else [sm_drop_snapshot new_id]))
        else []) @ post"
    by (rule applier_batch_effects)
  have n1: "\<And>e. \<not> is_resolution e \<Longrightarrow> e \<noteq> sm_apply (commands_of batch) \<Longrightarrow> e \<notin> set pre"
    using pre by (auto simp: list_all_iff)
  have n2: "\<And>e. \<not> is_resolution e \<Longrightarrow> e \<notin> set post"
    using post by (auto simp: list_all_iff)
  have due: "snapshot_due env s4 =
      (log_last_snapshot_idx env \<le> applied_idx s' \<and>
       snapshot_threshold (config s) \<le> applied_idx s' - log_last_snapshot_idx env)"
    by (simp add: snapshot_due_def a4 c4 a')
  have t: "(sm_take_snapshot \<in> set (new_effects s s')) = snapshot_due env s4"
    using n1[of sm_take_snapshot] n2[of sm_take_snapshot]
    by (auto simp: ne split: sum.splits)
  have d: "\<And>new_id. take_snapshot_result env = Inr new_id \<Longrightarrow>
      (sm_drop_snapshot new_id \<in> set (new_effects s s')) = (snapshot_due env s4 \<and> \<not> fsm_apply_snapshot_accepts env)"
    subgoal for new_id
      using n1[of "sm_drop_snapshot new_id"] n2[of "sm_drop_snapshot new_id"]
      by (auto simp: ne)
    done
  show ?thesis
    using a' t d due by simp
qed

theorem local_snapshot_policy_witness:
  "applier_iteration (example_env\<lparr>log_last_snapshot_idx := 2\<rparr>)
     (entries_item [\<lparr>entry_term = 2, idx = 7, data = command_data 5\<rparr>]) example_server
   = Inr (None,
       example_server\<lparr>applied_idx := 7,
         server_stats := zero_stats\<lparr>applied_entries := 1, snapshots_taken := 1\<rparr>,
         effects := [sm_apply [5], sm_take_snapshot,
           fsm_apply_snapshot \<lparr>snp_idx = 7, snp_term = 2, snp_config = [1, 2, 3], snp_id = 77\<rparr> 2 True,
           sm_drop_snapshot 77]\<rparr>)
   \<and> sm_take_snapshot
       \<in> set (new_effects example_server
           (example_server\<lparr>applied_idx := 7,
              server_stats := zero_stats\<lparr>applied_entries := 1, snapshots_taken := 1\<rparr>,
              effects := [sm_apply [5], sm_take_snapshot,
                fsm_apply_snapshot \<lparr>snp_idx = 7, snp_term = 2, snp_config = [1, 2, 3], snp_id = 77\<rparr> 2 True,
                sm_drop_snapshot 77]\<rparr>))
   \<and> sm_drop_snapshot 77
       \<in> set (new_effects example_server
           (example_server\<lparr>applied_idx := 7,
              server_stats := zero_stats\<lparr>applied_entries := 1, snapshots_taken := 1\<rparr>,
              effects := [sm_apply [5], sm_take_snapshot,
                fsm_apply_snapshot \<lparr>snp_idx = 7, snp_term = 2, snp_config = [1, 2, 3], snp_id = 77\<rparr> 2 True,
                sm_drop_snapshot 77]\<rparr>))"
proof -
  have ev: "applier_iteration (example_env\<lparr>log_last_snapshot_idx := 2\<rparr>)
     (entries_item [\<lparr>entry_term = 2, idx = 7, data = command_data 5\<rparr>]) example_server
   = Inr (None,
       example_server\<lparr>applied_idx := 7,
         server_stats := zero_stats\<lparr>applied_entries := 1, snapshots_taken := 1\<rparr>,
         effects := [sm_apply [5], sm_take_snapshot,
           fsm_apply_snapshot \<lparr>snp_idx = 7, snp_term = 2, snp_config = [1, 2, 3], snp_id = 77\<rparr> 2 True,
           sm_drop_snapshot 77]\<rparr>)"
    by (simp add: eval_defs example_defs)
  have h: "commands_of [\<lparr>entry_term = 2, idx = 7, data = command_data 5\<rparr>] = []
      \<or> apply_throws (example_env\<lparr>log_last_snapshot_idx := 2\<rparr>) = None"
    by (simp add: example_env_def)
  from local_snapshot_policy[OF ev _ h] ev show ?thesis
    by (simp add: example_defs)
qed

section \<open>Changing the configuration\<close>



section \<open>The read barrier\<close>



section \<open>Exceptions that end a fiber\<close>

text \<open>
  C9, as stated: an exception that ends the I/O fiber reaches the caller of
  \<^verbatim>\<open>abort\<close> through the futures \<^verbatim>\<open>abort\<close> waits for.  Persistence fails to store
  the term and vote; the fiber ends with that exception, writes it to the log and its
  future gets a value; \<^verbatim>\<open>abort\<close>, given that future, succeeds.
\<close>

theorem io_fiber_exception_not_surfaced:
  "applier_fiber [] example_server = Inr (set_value, example_server)
   \<and> io_loop [failing_io_env] 0 example_server
     = Inr (other_exception ''disk failure'',
            example_server\<lparr>server_stats := zero_stats\<lparr>polls := 1\<rparr>,
              effects := [store_term_and_vote 3 2]\<rparr>)
   \<and> io_fiber [failing_io_env] 0 example_server
     = Inr (set_value,
            example_server\<lparr>server_stats := zero_stats\<lparr>polls := 1\<rparr>,
              effects := [store_term_and_vote 3 2, log_error (other_exception ''disk failure'')]\<rparr>)
   \<and> fst (abort quiet_abort_env set_value set_value
            (example_server\<lparr>server_stats := zero_stats\<lparr>polls := 1\<rparr>,
              effects := [store_term_and_vote 3 2, log_error (other_exception ''disk failure'')]\<rparr>))
     = set_value
   \<and> fst (abort quiet_abort_env set_value set_value
            (example_server\<lparr>server_stats := zero_stats\<lparr>polls := 1\<rparr>,
              effects := [store_term_and_vote 3 2, log_error (other_exception ''disk failure'')]\<rparr>))
     \<noteq> set_exception (other_exception ''disk failure'')"
  by (simp add: applier_fiber_def io_fiber_def io_iteration_def persist_term_and_vote_def call_def
      and_then_def abort_def abort_snapshot_transfers_def future_of_def emit_def counted_def Let_def
      example_defs)

text \<open>
  C9, amended.  Whatever exception ends the loop of the I/O fiber, the future of the
  fiber gets a value, and an exception other than the two that stop the fiber is the
  last thing the fiber writes, to the error log; so it is for the exception an
  iteration of the loop throws, whatever batches would follow.  The same holds for the
  applier fiber, whose only silent exception is the one that stops it.  So when
  \<^verbatim>\<open>abort\<close> fails, the exception is one thrown by \<^verbatim>\<open>abort\<close> of the RPC module, of
  the state machine or of persistence, or by a snapshot transfer or an append request
  it waits for at the end.
\<close>

theorem fiber_exceptions_are_logged:
  "(io_fiber envs last_stable s = Inr (io_status, s') \<longrightarrow> io_status = set_value)
   \<and> (io_loop envs last_stable s = Inr (e, s1) \<longrightarrow>
        io_fiber envs last_stable s
          = Inr (set_value,
                 if e = broken_condition_variable \<or> e = stop_apply_fiber then s1
                 else s1\<lparr>effects := effects s1 @ [log_error e]\<rparr>))
   \<and> (io_iteration io_answers last_stable s = Inl (thrown e s1)
        \<and> e \<noteq> broken_condition_variable \<and> e \<noteq> stop_apply_fiber \<longrightarrow>
        io_fiber (io_answers # envs) last_stable s
          = Inr (set_value, s1\<lparr>effects := effects s1 @ [log_error e]\<rparr>))
   \<and> (applier_fiber q s = Inr (applier_status, s') \<longrightarrow> applier_status = set_value)
   \<and> (applier_loop q s = Inr (e, s1) \<longrightarrow>
        applier_fiber q s
          = Inr (set_value,
                 if e = stop_apply_fiber then s1 else s1\<lparr>effects := effects s1 @ [log_error e]\<rparr>))
   \<and> (applier_iteration applier_answers v s = Inr (Some e, s1) \<and> e \<noteq> stop_apply_fiber \<longrightarrow>
        applier_fiber ((applier_answers, v) # q) s
          = Inr (set_value, s1\<lparr>effects := effects s1 @ [log_error e]\<rparr>))
   \<and> (io_fiber envs last_stable s = Inr (io_status, s') \<and> applier_fiber q s2 = Inr (applier_status, s2')
        \<and> fst (abort env io_status applier_status s3) = set_exception e \<longrightarrow>
        e \<in> set_option (rpc_abort_throws env) \<union> set_option (sm_abort_throws env)
          \<union> set_option (persistence_abort_throws env) \<union> set_option (transfers_throw env))"
proof (intro conjI impI)
  show "io_status = set_value" if "io_fiber envs last_stable s = Inr (io_status, s')"
    using that by (auto simp: io_fiber_def split: sum.splits prod.splits)
  show "io_fiber envs last_stable s
          = Inr (set_value,
                 if e = broken_condition_variable \<or> e = stop_apply_fiber then s1
                 else s1\<lparr>effects := effects s1 @ [log_error e]\<rparr>)"
    if "io_loop envs last_stable s = Inr (e, s1)"
    using that by (simp add: io_fiber_def emit_def)
  show "io_fiber (io_answers # envs) last_stable s
          = Inr (set_value, s1\<lparr>effects := effects s1 @ [log_error e]\<rparr>)"
    if "io_iteration io_answers last_stable s = Inl (thrown e s1)
        \<and> e \<noteq> broken_condition_variable \<and> e \<noteq> stop_apply_fiber"
    using that by (simp add: io_fiber_def emit_def)
  show "applier_status = set_value" if "applier_fiber q s = Inr (applier_status, s')"
    using that by (auto simp: applier_fiber_def split: sum.splits prod.splits)
  show "applier_fiber q s
          = Inr (set_value,
                 if e = stop_apply_fiber then s1 else s1\<lparr>effects := effects s1 @ [log_error e]\<rparr>)"
    if "applier_loop q s = Inr (e, s1)"
    using that by (simp add: applier_fiber_def emit_def)
  show "applier_fiber ((applier_answers, v) # q) s
          = Inr (set_value, s1\<lparr>effects := effects s1 @ [log_error e]\<rparr>)"
    if "applier_iteration applier_answers v s = Inr (Some e, s1) \<and> e \<noteq> stop_apply_fiber"
    using that by (simp add: applier_fiber_def emit_def)
  show "e \<in> set_option (rpc_abort_throws env) \<union> set_option (sm_abort_throws env)
          \<union> set_option (persistence_abort_throws env) \<union> set_option (transfers_throw env)"
    if b: "io_fiber envs last_stable s = Inr (io_status, s') \<and> applier_fiber q s2 = Inr (applier_status, s2')
        \<and> fst (abort env io_status applier_status s3) = set_exception e"
  proof -
    from b have "applier_status = set_value"
      by (auto simp: applier_fiber_def split: sum.splits prod.splits)
    moreover from b have "io_status = set_value"
      by (auto simp: io_fiber_def split: sum.splits prod.splits)
    ultimately have a: "fst (abort env set_value set_value s3) = set_exception e"
      using b by simp
    show ?thesis
    proof (cases "when_all_succeed [set_value, set_value, future_of (rpc_abort_throws env),
             future_of (sm_abort_throws env), future_of (persistence_abort_throws env)]")
      case set_value
      with a show ?thesis
        by (auto simp: abort_def Let_def future_of_def split: option.splits)
    next
      case (set_exception e')
      with a have "e' = e" by (simp add: abort_def Let_def)
      with set_exception show ?thesis
        by (auto simp: future_of_def split: option.splits)
    qed
  qed
qed

theorem fiber_exceptions_are_logged_witness:
  "io_fiber [failing_io_env] 0 example_server
     = Inr (set_value,
            example_server\<lparr>server_stats := zero_stats\<lparr>polls := 1\<rparr>,
              effects := [store_term_and_vote 3 2, log_error (other_exception ''disk failure'')]\<rparr>)
   \<and> applier_fiber
       [(example_env\<lparr>apply_throws := Some (other_exception ''apply failed'')\<rparr>,
         entries_item [\<lparr>entry_term = 2, idx = 7, data = command_data 5\<rparr>])]
       example_server
     = Inr (set_value,
            example_server\<lparr>effects := [sm_apply [5], log_error (other_exception ''apply failed'')]\<rparr>)
   \<and> applier_fiber [] example_server = Inr (set_value, example_server)
   \<and> fst (abort (quiet_abort_env\<lparr>sm_abort_throws := Some (runtime_error ''state machine'')\<rparr>)
            set_value set_value example_server)
       = set_exception (runtime_error ''state machine'')
   \<and> runtime_error ''state machine''
       \<in> set_option (sm_abort_throws
            (quiet_abort_env\<lparr>sm_abort_throws := Some (runtime_error ''state machine'')\<rparr>))"
proof -
  let ?failing = "example_env\<lparr>apply_throws := Some (other_exception ''apply failed'')\<rparr>"
  let ?item = "entries_item [\<lparr>entry_term = 2, idx = 7, data = command_data 5\<rparr>]"
  let ?abort = "quiet_abort_env\<lparr>sm_abort_throws := Some (runtime_error ''state machine'')\<rparr>"
  have io: "io_iteration failing_io_env 0 example_server
     = Inl (thrown (other_exception ''disk failure'')
              (example_server\<lparr>server_stats := zero_stats\<lparr>polls := 1\<rparr>,
                 effects := [store_term_and_vote 3 2]\<rparr>))"
    by (simp add: io_iteration_def persist_term_and_vote_def call_def and_then_def emit_def
        counted_def example_defs)
  have ap: "applier_iteration ?failing ?item example_server
     = Inr (Some (other_exception ''apply failed''), example_server\<lparr>effects := [sm_apply [5]]\<rparr>)"
    by (simp add: eval_defs example_defs)
  have stop: "applier_loop [] example_server = Inr (stop_apply_fiber, example_server)"
    by simp
  have a: "fst (abort ?abort set_value set_value example_server)
       = set_exception (runtime_error ''state machine'')"
    by (simp add: abort_def future_of_def Let_def example_defs)
  note logged = fiber_exceptions_are_logged[where io_answers=failing_io_env and envs="[]"
      and last_stable=0 and s=example_server and e="other_exception ''disk failure''"
      and ?s1.0="example_server\<lparr>server_stats := zero_stats\<lparr>polls := 1\<rparr>,
                 effects := [store_term_and_vote 3 2]\<rparr>"]
  note applier = fiber_exceptions_are_logged[where applier_answers="?failing" and v="?item"
      and q="[]" and s=example_server and e="other_exception ''apply failed''"
      and ?s1.0="example_server\<lparr>effects := [sm_apply [5]]\<rparr>"]
  note stopped = fiber_exceptions_are_logged[where q="[]" and s=example_server
      and e=stop_apply_fiber and ?s1.0=example_server]
  have 1: "io_fiber [failing_io_env] 0 example_server
     = Inr (set_value,
            example_server\<lparr>server_stats := zero_stats\<lparr>polls := 1\<rparr>,
              effects := [store_term_and_vote 3 2]\<rparr>
              \<lparr>effects := effects (example_server\<lparr>server_stats := zero_stats\<lparr>polls := 1\<rparr>,
                                      effects := [store_term_and_vote 3 2]\<rparr>)
                          @ [log_error (other_exception ''disk failure'')]\<rparr>)"
    using logged io by blast
  have 2: "applier_fiber [(?failing, ?item)] example_server
     = Inr (set_value,
            example_server\<lparr>effects := [sm_apply [5]]\<rparr>
              \<lparr>effects := effects (example_server\<lparr>effects := [sm_apply [5]]\<rparr>)
                          @ [log_error (other_exception ''apply failed'')]\<rparr>)"
    using applier ap by blast
  have 3: "applier_fiber [] example_server = Inr (set_value, example_server)"
    using stopped stop by simp
  from 1 3 a
  have 4: "runtime_error ''state machine''
       \<in> set_option (rpc_abort_throws ?abort) \<union> set_option (sm_abort_throws ?abort)
          \<union> set_option (persistence_abort_throws ?abort) \<union> set_option (transfers_throw ?abort)"
    using fiber_exceptions_are_logged[where envs="[failing_io_env]" and last_stable=0
        and s=example_server and io_status=set_value and q="[]" and ?s2.0=example_server
        and applier_status=set_value and ?s2'.0=example_server and env="?abort"
        and ?s3.0=example_server and e="runtime_error ''state machine''"]
    by blast
  from 1 2 3 a 4 show ?thesis
    by (simp add: quiet_abort_env_def)
qed

section \<open>Stepping down\<close>

text \<open>
  C10.  While a promise of an earlier \<^verbatim>\<open>stepdown\<close> is pending, \<^verbatim>\<open>stepdown\<close> returns a
  future that failed with a logic error and does nothing else: the FSM is not called.
  Without such a promise, when \<^verbatim>\<open>transfer_leadership\<close> throws, the future fails with
  that exception and no promise is left; a call that follows asks the FSM again and,
  when the FSM does not throw, returns the future of a new promise.
\<close>

theorem stepdown_in_progress:
  "(stepdown_promise s = Some p \<longrightarrow>
      stepdown timeout transfer_throws s
        = (exception_future (logic_error ''Stepdown is already in progress''), s))
   \<and> (stepdown_promise s = None \<longrightarrow>
      stepdown timeout (Some e) s = (exception_future e, emit [fsm_transfer_leadership timeout] s)
      \<and> stepdown_promise (snd (stepdown timeout (Some e) s)) = None
      \<and> stepdown timeout2 None (snd (stepdown timeout (Some e) s))
          = (pending_future (next_promise s),
             (emit [fsm_transfer_leadership timeout, fsm_transfer_leadership timeout2] s)
               \<lparr>next_promise := Suc (next_promise s), stepdown_promise := Some (next_promise s)\<rparr>))"
  by (simp add: stepdown_def helper_defs Let_def)

theorem stepdown_in_progress_witness:
  "stepdown 10 None (example_server\<lparr>stepdown_promise := Some 5\<rparr>)
     = (exception_future (logic_error ''Stepdown is already in progress''),
        example_server\<lparr>stepdown_promise := Some 5\<rparr>)
   \<and> stepdown 10 (Some (other_exception ''not a leader'')) example_server
     = (exception_future (other_exception ''not a leader''),
        emit [fsm_transfer_leadership 10] example_server)
   \<and> stepdown 15 None (snd (stepdown 10 (Some (other_exception ''not a leader'')) example_server))
     = (pending_future 20,
        (emit [fsm_transfer_leadership 10, fsm_transfer_leadership 15] example_server)
          \<lparr>next_promise := 21, stepdown_promise := Some 20\<rparr>)"
proof -
  have n: "stepdown_promise example_server = None" and np: "next_promise example_server = 20"
    by (simp_all add: example_server_def)
  from stepdown_in_progress[where s="example_server\<lparr>stepdown_promise := Some 5\<rparr>" and p=5
      and timeout=10 and transfer_throws=None]
  have a1: "stepdown 10 None (example_server\<lparr>stepdown_promise := Some 5\<rparr>)
     = (exception_future (logic_error ''Stepdown is already in progress''),
        example_server\<lparr>stepdown_promise := Some 5\<rparr>)"
    by simp
  from stepdown_in_progress[where s=example_server and timeout=10
      and e="other_exception ''not a leader''" and ?timeout2.0=15] n
  have a2: "stepdown 10 (Some (other_exception ''not a leader'')) example_server
     = (exception_future (other_exception ''not a leader''),
        emit [fsm_transfer_leadership 10] example_server)"
    and a3: "stepdown 15 None (snd (stepdown 10 (Some (other_exception ''not a leader'')) example_server))
     = (pending_future (next_promise example_server),
        (emit [fsm_transfer_leadership 10, fsm_transfer_leadership 15] example_server)
          \<lparr>next_promise := Suc (next_promise example_server),
            stepdown_promise := Some (next_promise example_server)\<rparr>)"
    by blast+
  from a1 a2 a3 np
  show ?thesis by simp
qed

end
